theory Spec2Isabelle
  imports Main "HOL-Library.Word"
begin

unbundle bit_operations_syntax

section \<open>C integers of FontToBin.c\<close>

text \<open>
  \<^verbatim>\<open>uint32_t\<close> is a 32-bit word. A C \<^verbatim>\<open>int\<close> is an integer kept in the range
  \<open>-2^31 .. 2^31 - 1\<close>: C leaves signed overflow undefined, and the model gives every
  \<open>+\<close>, \<open>-\<close>, \<open>*\<close> and \<open><<\<close> on an \<^verbatim>\<open>int\<close> the two's complement result \<open>wrap32\<close>,
  which is what the program's targets compute (the mask of line 73 relies on it: its
  left shift reaches the sign bit on every straddling scanline). \<open>/\<close> and \<open>%\<close>
  truncate towards zero. A shift whose count is negative or at least 32 has no result
  that two machines agree on (x86 takes the count modulo 32, ARM shifts everything out)
  and is a fault, and so is an access outside the pixel buffer. A fault stands for
  undefined behaviour: the model says nothing of what the program does after it.
\<close>

type_synonym uint32 = "32 word"

datatype fault = ShiftCount | OutOfBounds

definition wrap32 :: "int \<Rightarrow> int" where
  "wrap32 x = signed_take_bit 31 x"

definition iadd :: "int \<Rightarrow> int \<Rightarrow> int" where
  "iadd a b = wrap32 (a + b)"

definition isub :: "int \<Rightarrow> int \<Rightarrow> int" where
  "isub a b = wrap32 (a - b)"

definition imul :: "int \<Rightarrow> int \<Rightarrow> int" where
  "imul a b = wrap32 (a * b)"

definition idiv :: "int \<Rightarrow> int \<Rightarrow> int" where
  "idiv a b = sgn a * sgn b * (\<bar>a\<bar> div \<bar>b\<bar>)"

definition imod :: "int \<Rightarrow> int \<Rightarrow> int" where
  "imod a b = sgn a * (\<bar>a\<bar> mod \<bar>b\<bar>)"

definition shl_int :: "int \<Rightarrow> int \<Rightarrow> fault + int" where
  "shl_int a n = (if 0 \<le> n \<and> n < 32 then Inr (wrap32 (a * 2 ^ nat n)) else Inl ShiftCount)"

definition shl_u32 :: "uint32 \<Rightarrow> int \<Rightarrow> fault + uint32" where
  "shl_u32 w n = (if 0 \<le> n \<and> n < 32 then Inr (push_bit (nat n) w) else Inl ShiftCount)"

definition shr_u32 :: "uint32 \<Rightarrow> int \<Rightarrow> fault + uint32" where
  "shr_u32 w n = (if 0 \<le> n \<and> n < 32 then Inr (drop_bit (nat n) w) else Inl ShiftCount)"

definition to_u32 :: "int \<Rightarrow> uint32" where
  "to_u32 x = word_of_int x"

definition readWord :: "uint32 list \<Rightarrow> int \<Rightarrow> fault + uint32" where
  "readWord data i = (if 0 \<le> i \<and> i < int (length data) then Inr (data ! nat i) else Inl OutOfBounds)"

definition thenE :: "fault + 'a \<Rightarrow> ('a \<Rightarrow> fault + 'b) \<Rightarrow> fault + 'b" where
  "thenE m f = (case m of Inl e \<Rightarrow> Inl e | Inr x \<Rightarrow> f x)"

section \<open>swapEndian32\<close>

definition swapEndian32 :: "uint32 \<Rightarrow> uint32" where
  "swapEndian32 x =
     (drop_bit 24 x OR (push_bit 8 x AND 0x00FF0000) OR (drop_bit 8 x AND 0x0000FF00)
      OR push_bit 24 x)"

text \<open>Byte \<open>i\<close> of a word, byte 0 the least significant.\<close>

definition byteAt :: "nat \<Rightarrow> uint32 \<Rightarrow> 8 word" where
  "byteAt i x = ucast (drop_bit (8 * i) x)"

section \<open>assembleCharacter\<close>

text \<open>
  Line 50 to 53: the bit of the upper left pixel of the character, the word that holds
  it and the bit's distance from that word's most significant bit.
\<close>

definition firstBits :: "int \<Rightarrow> int \<Rightarrow> int \<Rightarrow> int \<Rightarrow> int" where
  "firstBits ASCII charWidth charHeight dwordsPerLine =
     iadd (imul (imod ASCII 64) charWidth)
          (if ASCII < 64 then 0 else imul (imul charHeight dwordsPerLine) 32)"

definition startState :: "int \<Rightarrow> int \<Rightarrow> int \<Rightarrow> int \<Rightarrow> int \<times> int \<times> int" where
  "startState ASCII charWidth charHeight dwordsPerLine =
     (let bits = firstBits ASCII charWidth charHeight dwordsPerLine
      in (bits, idiv bits 32, imod bits 32))"

text \<open>The end of both loop bodies: \<^verbatim>\<open>bits += dwordsPerLine * 32\<close>, then the word and the offset again.\<close>

definition advance :: "int \<Rightarrow> int \<times> int \<times> int \<Rightarrow> int \<times> int \<times> int" where
  "advance dwordsPerLine st =
     (case st of (bits, dword, offset) \<Rightarrow>
        let bits' = iadd bits (imul dwordsPerLine 32)
        in (bits', idiv bits' 32, imod bits' 32))"

text \<open>Line 60 and 61: one scanline that lies in one word.\<close>

definition plainRow :: "uint32 list \<Rightarrow> int \<Rightarrow> int \<Rightarrow> int \<Rightarrow> fault + uint32" where
  "plainRow data charWidth dword offset =
     thenE (shl_int 1 charWidth) (\<lambda>s.
       let mask = to_u32 (isub s 1) in
       thenE (readWord data dword) (\<lambda>w.
       thenE (shr_u32 w (isub (isub 32 charWidth) offset)) (\<lambda>v.
       Inr (v AND mask))))"

text \<open>Line 71 to 80: one scanline split across the words \<open>dword\<close> and \<open>dword + 1\<close>.\<close>

definition straddleRow :: "uint32 list \<Rightarrow> int \<Rightarrow> int \<Rightarrow> int \<Rightarrow> fault + uint32" where
  "straddleRow data charWidth dword offset =
     thenE (shl_int 1 (isub 32 offset)) (\<lambda>s1.
       let mask1 = to_u32 (isub s1 1) in
       thenE (readWord data dword) (\<lambda>w0.
       let tmp1 = w0 AND mask1 in
       thenE (shl_int 1 (isub charWidth (isub 32 offset))) (\<lambda>s2.
       thenE (shl_int (isub s2 1) (isub 32 (isub charWidth (isub 32 offset)))) (\<lambda>m2.
       let mask2 = to_u32 m2 in
       thenE (readWord data (iadd dword 1)) (\<lambda>w1.
       let tmp2 = w1 AND mask2 in
       thenE (shl_u32 tmp1 (isub charWidth (isub 32 offset))) (\<lambda>hi.
       thenE (shr_u32 tmp2 (isub 32 (isub charWidth (isub 32 offset)))) (\<lambda>lo.
       Inr (hi OR lo))))))))"

text \<open>
  The two \<^verbatim>\<open>for\<close> loops, by the number of scanlines still to do; the result is the
  \<^verbatim>\<open>character\<close> array, \<^verbatim>\<open>character[0]\<close> first.
\<close>

fun plainLoop :: "uint32 list \<Rightarrow> int \<Rightarrow> int \<Rightarrow> nat \<Rightarrow> int \<times> int \<times> int \<Rightarrow> fault + uint32 list" where
  "plainLoop data charWidth dwordsPerLine 0 st = Inr []"
| "plainLoop data charWidth dwordsPerLine (Suc n) st =
     (case plainRow data charWidth (fst (snd st)) (snd (snd st)) of
        Inl e \<Rightarrow> Inl e
      | Inr r \<Rightarrow>
          (case plainLoop data charWidth dwordsPerLine n (advance dwordsPerLine st) of
             Inl e \<Rightarrow> Inl e
           | Inr rs \<Rightarrow> Inr (r # rs)))"

fun straddleLoop :: "uint32 list \<Rightarrow> int \<Rightarrow> int \<Rightarrow> nat \<Rightarrow> int \<times> int \<times> int \<Rightarrow> fault + uint32 list" where
  "straddleLoop data charWidth dwordsPerLine 0 st = Inr []"
| "straddleLoop data charWidth dwordsPerLine (Suc n) st =
     (case straddleRow data charWidth (fst (snd st)) (snd (snd st)) of
        Inl e \<Rightarrow> Inl e
      | Inr r \<Rightarrow>
          (case straddleLoop data charWidth dwordsPerLine n (advance dwordsPerLine st) of
             Inl e \<Rightarrow> Inl e
           | Inr rs \<Rightarrow> Inr (r # rs)))"

definition onBoundary :: "int \<Rightarrow> int \<Rightarrow> bool" where
  "onBoundary offset charWidth = (iadd offset charWidth > 32)"

definition assembleCharacter ::
  "uint32 list \<Rightarrow> int \<Rightarrow> int \<Rightarrow> int \<Rightarrow> int \<Rightarrow> fault + uint32 list" where
  "assembleCharacter data ASCII charWidth charHeight dwordsPerLine =
     (let st = startState ASCII charWidth charHeight dwordsPerLine
      in if \<not> onBoundary (snd (snd st)) charWidth
         then plainLoop data charWidth dwordsPerLine (nat charHeight) st
         else straddleLoop data charWidth dwordsPerLine (nat charHeight) st)"

text \<open>
  The same function with the branch taken again on every scanline from that scanline's
  own offset, instead of once before the loop: the reading the hoisted test of line 54
  to 56 is compared with.
\<close>

fun recheckLoop :: "uint32 list \<Rightarrow> int \<Rightarrow> int \<Rightarrow> nat \<Rightarrow> int \<times> int \<times> int \<Rightarrow> fault + uint32 list" where
  "recheckLoop data charWidth dwordsPerLine 0 st = Inr []"
| "recheckLoop data charWidth dwordsPerLine (Suc n) st =
     (case (if \<not> onBoundary (snd (snd st)) charWidth
            then plainRow data charWidth (fst (snd st)) (snd (snd st))
            else straddleRow data charWidth (fst (snd st)) (snd (snd st))) of
        Inl e \<Rightarrow> Inl e
      | Inr r \<Rightarrow>
          (case recheckLoop data charWidth dwordsPerLine n (advance dwordsPerLine st) of
             Inl e \<Rightarrow> Inl e
           | Inr rs \<Rightarrow> Inr (r # rs)))"

definition assembleCharacter_recheck ::
  "uint32 list \<Rightarrow> int \<Rightarrow> int \<Rightarrow> int \<Rightarrow> int \<Rightarrow> fault + uint32 list" where
  "assembleCharacter_recheck data ASCII charWidth charHeight dwordsPerLine =
     recheckLoop data charWidth dwordsPerLine (nat charHeight)
       (startState ASCII charWidth charHeight dwordsPerLine)"

section \<open>The specification's vocabulary\<close>

text \<open>
  The bit offset of a glyph's upper left pixel as the specification writes it, in
  unbounded integers.
\<close>

definition specBitOffset :: "int \<Rightarrow> int \<Rightarrow> int \<Rightarrow> int \<Rightarrow> int" where
  "specBitOffset asciiCode charWidth charHeight dwordsPerLine =
     (asciiCode mod 64) * charWidth
     + (if asciiCode < 64 then 0 else charHeight * dwordsPerLine * 32)"

text \<open>
  Pixel \<open>p\<close> of the flattened pixel buffer: bit 31 of a word is the leftmost pixel of
  its 32-pixel span.
\<close>

definition pixelAt :: "uint32 list \<Rightarrow> nat \<Rightarrow> bool" where
  "pixelAt data p = bit (data ! (p div 32)) (31 - p mod 32)"

section \<open>toBinary\<close>

text \<open>
  The characters \<^verbatim>\<open>toBinary\<close> sends to \<^verbatim>\<open>bin\<close>. The loop variable \<open>i\<close> runs from
  \<open>width - 1\<close> down to 0; the recursion is on \<open>i + 1\<close>. \<^verbatim>\<open>"%d"\<close> prints the value
  \<open>(n >> i) & 1\<close>, which is 0 or 1.
\<close>

definition digit :: "uint32 \<Rightarrow> char" where
  "digit v = (if v = 0 then CHR ''0'' else CHR ''1'')"

definition newline :: char where
  "newline = CHR 0x0A"

fun toBinaryLoop :: "uint32 \<Rightarrow> nat \<Rightarrow> fault + string" where
  "toBinaryLoop n 0 = Inr []"
| "toBinaryLoop n (Suc i) =
     (case shr_u32 n (int i) of
        Inl e \<Rightarrow> Inl e
      | Inr v \<Rightarrow>
          (case toBinaryLoop n i of
             Inl e \<Rightarrow> Inl e
           | Inr s \<Rightarrow> Inr (digit (v AND 1) # s)))"

definition toBinary :: "uint32 \<Rightarrow> int \<Rightarrow> fault + string" where
  "toBinary n width =
     (case toBinaryLoop n (nat (isub width 1 + 1)) of
        Inl e \<Rightarrow> Inl e
      | Inr s \<Rightarrow> Inr (s @ [newline]))"

section \<open>main\<close>

text \<open>
  What \<^verbatim>\<open>main\<close> meets outside the program: the path given on the command line,
  the bytes of the source file (\<open>None\<close> when \<^verbatim>\<open>fopen\<close> fails), whether
  \<^verbatim>\<open>font.bin\<close> can be created, whether each \<^verbatim>\<open>malloc\<close> succeeds, and the values of
  objects the program reads without having set them: \<open>indeterminate 0\<close>, \<open>1\<close> and \<open>2\<close>
  for \<^verbatim>\<open>pixelDataOffset\<close>, \<^verbatim>\<open>imageWidth\<close> and \<^verbatim>\<open>imageHeight\<close>, and
  \<open>indeterminate (3 + i)\<close> for cell \<open>i\<close> of the fresh pixel buffer. The stream is
  read as the bytes it delivers (no translation of line ends), \<^verbatim>\<open>size_t\<close> is wide
  enough for the product of the buffer's dimensions, and the machine is little endian, as
  line 137 says. A run ends in an \<open>outcome\<close>: the exit status, the events in the order
  the program performs them (a resource acquired or released, a diagnostic printed to
  \<^verbatim>\<open>stderr\<close>) and the contents of \<^verbatim>\<open>font.bin\<close> (\<open>None\<close> when it was not created).
\<close>

type_synonym byte = "8 word"

record env =
  argv1 :: string
  font_file :: "byte list option"
  bin_creatable :: bool
  charData_alloc :: bool
  character_alloc :: bool
  indeterminate :: "nat \<Rightarrow> uint32"

datatype resource = FontFile | BinFile | CharData | Character

datatype event = Acquire resource | Release resource | Diagnostic string

record outcome =
  status :: int
  events :: "event list"
  bin_out :: "string option"

text \<open>
  \<^verbatim>\<open>fseek(font, off, SEEK_SET)\<close>, whose result the program ignores: a negative offset
  leaves the position where it was.
\<close>

definition fseek_set :: "nat \<Rightarrow> int \<Rightarrow> nat" where
  "fseek_set pos off = (if off < 0 then pos else nat off)"

definition le32 :: "byte \<Rightarrow> byte \<Rightarrow> byte \<Rightarrow> byte \<Rightarrow> uint32" where
  "le32 b0 b1 b2 b3 =
     (ucast b0 OR push_bit 8 (ucast b1) OR push_bit 16 (ucast b2) OR push_bit 24 (ucast b3))"

text \<open>
  \<^verbatim>\<open>fread(&x, 4, 1, font)\<close>, whose result the program ignores: the four bytes at the
  position when they are there; an object left as it was at the end of the file; an
  indeterminate value when one to three bytes are left.
\<close>

definition fread32 :: "byte list \<Rightarrow> nat \<Rightarrow> uint32 \<Rightarrow> uint32 \<Rightarrow> uint32 \<times> nat" where
  "fread32 file pos old ind =
     (if pos + 4 \<le> length file
      then (le32 (file ! pos) (file ! (pos + 1)) (file ! (pos + 2)) (file ! (pos + 3)), pos + 4)
      else if pos < length file then (ind, length file)
      else (old, pos))"

text \<open>Line 111 to 116: the three header fields, and the position after them.\<close>

definition readHeader :: "env \<Rightarrow> byte list \<Rightarrow> (int \<times> int \<times> int) \<times> nat" where
  "readHeader e file =
     (let p0 = fseek_set 0 0x0A;
          (w0, p1) = fread32 file p0 (indeterminate e 0) (indeterminate e 0);
          pixelDataOffset = sint w0;
          p2 = fseek_set p1 (0x0E + 4);
          (w1, p3) = fread32 file p2 (indeterminate e 1) (indeterminate e 1);
          imageWidth = sint w1;
          (w2, p4) = fread32 file p3 (indeterminate e 2) (indeterminate e 2);
          imageHeight = sint w2
      in ((pixelDataOffset, imageWidth, imageHeight), p4))"

text \<open>Line 118 to 122.\<close>

definition charWidthOf :: "int \<Rightarrow> int" where
  "charWidthOf imageWidth = idiv imageWidth 64"

definition charHeightOf :: "int \<Rightarrow> int" where
  "charHeightOf imageHeight = idiv imageHeight 2"

definition bytesPerLineOf :: "int \<Rightarrow> int" where
  "bytesPerLineOf charWidth = idiv (imul charWidth 64) 8"

definition dwordsPerLineOf :: "int \<Rightarrow> int" where
  "dwordsPerLineOf charWidth = idiv (bytesPerLineOf charWidth) 4"

text \<open>
  Line 132 to 140. The inner loop runs \<open>j\<close> from 0 while \<open>j < dwordsPerLine\<close>, the outer
  one \<open>i\<close> from \<open>imageHeight - 1\<close> while \<open>i \<ge> 0\<close>; both recursions are on the number of
  rounds left. The state is the pixel buffer and the position in the file.
\<close>

fun loadInner ::
  "env \<Rightarrow> byte list \<Rightarrow> int \<Rightarrow> int \<Rightarrow> nat \<Rightarrow> int \<Rightarrow> uint32 list \<times> nat \<Rightarrow> fault + uint32 list \<times> nat" where
  "loadInner e file dwordsPerLine i 0 j s = Inr s"
| "loadInner e file dwordsPerLine i (Suc n) j s =
     (let idx = iadd (imul i dwordsPerLine) j
      in if 0 \<le> idx \<and> idx < int (length (fst s))
         then (case fread32 file (snd s) (fst s ! nat idx) (indeterminate e (3 + nat idx)) of
                 (v, pos') \<Rightarrow>
                   loadInner e file dwordsPerLine i n (iadd j 1)
                     ((fst s)[nat idx := swapEndian32 v], pos'))
         else Inl OutOfBounds)"

fun loadOuter ::
  "env \<Rightarrow> byte list \<Rightarrow> int \<Rightarrow> nat \<Rightarrow> int \<Rightarrow> uint32 list \<times> nat \<Rightarrow> fault + uint32 list \<times> nat" where
  "loadOuter e file dwordsPerLine 0 i s = Inr s"
| "loadOuter e file dwordsPerLine (Suc n) i s =
     (case loadInner e file dwordsPerLine i (nat dwordsPerLine) 0 s of
        Inl f \<Rightarrow> Inl f
      | Inr s' \<Rightarrow> loadOuter e file dwordsPerLine n (isub i 1) s')"

text \<open>
  Line 124 and 131 to 140, after a successful \<^verbatim>\<open>malloc\<close>: the fresh buffer of
  \<open>dwordsPerLine * imageHeight\<close> words, the seek to the pixel data and the two loops.
\<close>

definition loadPixels :: "env \<Rightarrow> byte list \<Rightarrow> fault + uint32 list" where
  "loadPixels e file =
     (case readHeader e file of
        ((pixelDataOffset, imageWidth, imageHeight), p) \<Rightarrow>
          let dwordsPerLine = dwordsPerLineOf (charWidthOf imageWidth);
              fresh = map (\<lambda>k. indeterminate e (3 + k)) [0..<nat (dwordsPerLine * imageHeight)]
          in (case loadOuter e file dwordsPerLine (nat (isub imageHeight 1 + 1))
                     (isub imageHeight 1) (fresh, fseek_set p pixelDataOffset) of
                Inl f \<Rightarrow> Inl f
              | Inr s \<Rightarrow> Inr (fst s)))"

text \<open>Line 151 to 156: the characters written to \<^verbatim>\<open>font.bin\<close>.\<close>

fun printRows :: "uint32 list \<Rightarrow> int \<Rightarrow> fault + string" where
  "printRows [] charWidth = Inr []"
| "printRows (r # rs) charWidth =
     (case toBinary r charWidth of
        Inl f \<Rightarrow> Inl f
      | Inr s \<Rightarrow>
          (case printRows rs charWidth of
             Inl f \<Rightarrow> Inl f
           | Inr t \<Rightarrow> Inr (s @ t)))"

fun emitLoop :: "uint32 list \<Rightarrow> int \<Rightarrow> int \<Rightarrow> int \<Rightarrow> nat \<Rightarrow> int \<Rightarrow> fault + string" where
  "emitLoop charData charWidth charHeight dwordsPerLine 0 i = Inr []"
| "emitLoop charData charWidth charHeight dwordsPerLine (Suc n) i =
     (case assembleCharacter charData i charWidth charHeight dwordsPerLine of
        Inl f \<Rightarrow> Inl f
      | Inr character \<Rightarrow>
          (case printRows character charWidth of
             Inl f \<Rightarrow> Inl f
           | Inr s \<Rightarrow>
               (case emitLoop charData charWidth charHeight dwordsPerLine n (iadd i 1) of
                  Inl f \<Rightarrow> Inl f
                | Inr t \<Rightarrow> Inr (s @ t))))"

definition main :: "env \<Rightarrow> fault + outcome" where
  "main e =
     (case font_file e of
        None \<Rightarrow>
          Inr \<lparr>status = 1,
               events = [Diagnostic (''Error opening source font file: '' @ argv1 e @ ''.'' @ [newline])],
               bin_out = None\<rparr>
      | Some file \<Rightarrow>
          if \<not> bin_creatable e
          then Inr \<lparr>status = 1,
                    events = [Acquire FontFile,
                              Diagnostic (''Error creating destination bin file font.bin.'' @ [newline]),
                              Release FontFile],
                    bin_out = None\<rparr>
          else if \<not> charData_alloc e
          then Inr \<lparr>status = 1,
                    events = [Acquire FontFile, Acquire BinFile,
                              Diagnostic (''Error allocating memory.'' @ [newline]),
                              Release FontFile, Release BinFile],
                    bin_out = Some []\<rparr>
          else
            (case loadPixels e file of
               Inl f \<Rightarrow> Inl f
             | Inr charData \<Rightarrow>
                 if \<not> character_alloc e
                 then Inr \<lparr>status = 1,
                           events = [Acquire FontFile, Acquire BinFile, Acquire CharData,
                                     Diagnostic (''Error allocating memory.'' @ [newline]),
                                     Release FontFile, Release BinFile, Release CharData],
                           bin_out = Some []\<rparr>
                 else
                   (case readHeader e file of
                      ((pixelDataOffset, imageWidth, imageHeight), p) \<Rightarrow>
                        (case emitLoop charData (charWidthOf imageWidth) (charHeightOf imageHeight)
                                (dwordsPerLineOf (charWidthOf imageWidth)) 128 0 of
                           Inl f \<Rightarrow> Inl f
                         | Inr out \<Rightarrow>
                             Inr \<lparr>status = 0,
                                  events = [Acquire FontFile, Acquire BinFile, Acquire CharData,
                                            Acquire Character, Release CharData, Release Character,
                                            Release FontFile, Release BinFile],
                                  bin_out = Some out\<rparr>))))"



text \<open>
  The vocabulary of the output: \<open>binaryDigits w v\<close> is the rendering of \<open>v\<close> in \<open>w\<close>
  binary digits, character \<open>j\<close> being bit \<open>w - 1 - j\<close>.
\<close>

definition binaryDigits :: "nat \<Rightarrow> uint32 \<Rightarrow> string" where
  "binaryDigits w v = map (\<lambda>j. if bit v (w - 1 - j) then CHR ''1'' else CHR ''0'') [0..<w]"

text \<open>The row values of glyph \<open>c\<close>: what assembleCharacter leaves in \<^verbatim>\<open>character\<close>.\<close>

definition glyphRows :: "uint32 list \<Rightarrow> int \<Rightarrow> int \<Rightarrow> int \<Rightarrow> nat \<Rightarrow> uint32 list" where
  "glyphRows charData charWidth charHeight dwordsPerLine c =
     (case assembleCharacter charData (int c) charWidth charHeight dwordsPerLine of
        Inr rows \<Rightarrow> rows
      | Inl f \<Rightarrow> [])"

text \<open>
  The vocabulary of the source file: \<open>be32\<close> is the word made of four bytes, first byte
  most significant; \<open>storedWord file q\<close> is what line 136 to 138 store for the four
  bytes at position \<open>q\<close> (read as the machine reads them, then swapped); \<open>filePixel\<close> is
  pixel \<open>x\<close> of the row that starts at byte \<open>pos\<close>, eight pixels to a byte, leftmost in
  bit 7.
\<close>

definition be32 :: "byte \<Rightarrow> byte \<Rightarrow> byte \<Rightarrow> byte \<Rightarrow> uint32" where
  "be32 b0 b1 b2 b3 =
     (push_bit 24 (ucast b0) OR push_bit 16 (ucast b1) OR push_bit 8 (ucast b2) OR ucast b3)"

definition storedWord :: "byte list \<Rightarrow> nat \<Rightarrow> uint32" where
  "storedWord file q =
     swapEndian32 (le32 (file ! q) (file ! (q + 1)) (file ! (q + 2)) (file ! (q + 3)))"

definition filePixel :: "byte list \<Rightarrow> nat \<Rightarrow> nat \<Rightarrow> bool" where
  "filePixel file pos x = bit (file ! (pos + x div 8)) (7 - x mod 8)"

text \<open>
  A small source file for the examples: a sheet of 64 by 2 pixels (charWidth 1,
  charHeight 1, dwordsPerLine 2) behind a header of 62 bytes. The bottom row, first in
  the file, sets the pixels of codes 64 to 71 and of code 127; the top row sets the pixel
  of code 0.
\<close>

definition tinySheet :: "byte list" where
  "tinySheet = replicate 10 0 @ [62, 0, 0, 0] @ [40, 0, 0, 0] @ [64, 0, 0, 0] @ [2, 0, 0, 0]
     @ replicate 36 0 @ [0xFF, 0, 0, 0, 0, 0, 0, 1] @ [0x80, 0, 0, 0, 0, 0, 0, 0]"

definition tinyRun :: env where
  "tinyRun = \<lparr>argv1 = ''font.bmp'', font_file = Some tinySheet, bin_creatable = True,
     charData_alloc = True, character_alloc = True, indeterminate = (\<lambda>k. 0)\<rparr>"

text \<open>
  A tall source file: a sheet of 1024 by 134217728 pixels (charWidth 16, dwordsPerLine 32)
  behind the same header of 62 bytes, every pixel clear. It holds all of the
  \<open>134217728 * 32\<close> words its header declares.
\<close>

definition tallSheet :: "byte list" where
  "tallSheet = replicate 10 0 @ [62, 0, 0, 0] @ [40, 0, 0, 0] @ [0, 4, 0, 0] @ [0, 0, 0, 8]
     @ replicate 36 0 @ replicate 17179869184 0"

definition tallRun :: env where
  "tallRun = \<lparr>argv1 = ''font.bmp'', font_file = Some tallSheet, bin_creatable = True,
     charData_alloc = True, character_alloc = True, indeterminate = (\<lambda>k. 0)\<rparr>"

text \<open>
  A synthetic sheet: glyph cell \<open>code\<close> holds, on its scanline \<open>line\<close>, the low \<open>w\<close> bits
  of \<open>pat code line\<close>, first pixel the most significant of them. \<open>sheetPixel\<close> is the pixel
  in row \<open>r\<close> and column \<open>x\<close> of the sheet, \<open>sheetWord\<close> packs 32 pixels of a row with the
  leftmost in bit 31, and \<open>sheetBuffer\<close> lays the \<open>2 * h\<close> rows of \<open>2 * w\<close> words out top
  to bottom.
\<close>

definition sheetPixel :: "(nat \<Rightarrow> nat \<Rightarrow> uint32) \<Rightarrow> nat \<Rightarrow> nat \<Rightarrow> nat \<Rightarrow> nat \<Rightarrow> bool" where
  "sheetPixel pat w h r x =
     bit (pat (x div w + (if r < h then 0 else 64)) (r mod h)) (w - 1 - x mod w)"

definition sheetWord :: "(nat \<Rightarrow> nat \<Rightarrow> uint32) \<Rightarrow> nat \<Rightarrow> nat \<Rightarrow> nat \<Rightarrow> nat \<Rightarrow> uint32" where
  "sheetWord pat w h r j =
     horner_sum of_bool 2 (map (\<lambda>n. sheetPixel pat w h r (32 * j + (31 - n))) [0..<32])"

definition sheetBuffer :: "(nat \<Rightarrow> nat \<Rightarrow> uint32) \<Rightarrow> nat \<Rightarrow> nat \<Rightarrow> uint32 list" where
  "sheetBuffer pat w h =
     concat (map (\<lambda>r. map (sheetWord pat w h r) [0..<2 * w]) [0..<2 * h])"

section \<open>Byte order\<close>

lemma const_ff0000: "(0x00FF0000 :: uint32) = push_bit 16 (mask 8)"
  by (simp add: mask_eq_exp_minus_1)

lemma const_ff00: "(0x0000FF00 :: uint32) = push_bit 8 (mask 8)"
  by (simp add: mask_eq_exp_minus_1)

lemma bit_swapEndian32:
  "bit (swapEndian32 x) n \<longleftrightarrow>
     (if n < 8 then bit x (n + 24) else if n < 16 then bit x (n + 8)
      else if n < 24 then bit x (n - 8) else if n < 32 then bit x (n - 24) else False)"
  unfolding swapEndian32_def const_ff0000 const_ff00
  by (auto simp add: bit_simps ac_simps dest: bit_imp_le_length)

lemma swapEndian32_twice: "swapEndian32 (swapEndian32 x) = x"
  by (rule bit_word_eqI) (auto simp add: bit_swapEndian32)

lemma byteAt_swapEndian32_0: "byteAt 0 (swapEndian32 x) = byteAt 3 x"
  unfolding byteAt_def
  by (rule bit_word_eqI) (auto simp add: bit_simps bit_swapEndian32 ac_simps)

lemma byteAt_swapEndian32_1: "byteAt 1 (swapEndian32 x) = byteAt 2 x"
  unfolding byteAt_def
  by (rule bit_word_eqI) (auto simp add: bit_simps bit_swapEndian32 ac_simps)

lemma byteAt_swapEndian32_2: "byteAt 2 (swapEndian32 x) = byteAt 1 x"
  unfolding byteAt_def
  by (rule bit_word_eqI) (auto simp add: bit_simps bit_swapEndian32 ac_simps)

lemma byteAt_swapEndian32_3: "byteAt 3 (swapEndian32 x) = byteAt 0 x"
  unfolding byteAt_def
  by (rule bit_word_eqI) (auto simp add: bit_simps bit_swapEndian32 ac_simps)

text \<open>
  C9. swapEndian32 reverses the four bytes of its argument (byte 0 with byte 3, byte 1
  with byte 2), and applying it twice gives the argument back.
\<close>

theorem swapEndian32_reverses_involution:
  "byteAt 0 (swapEndian32 x) = byteAt 3 x \<and> byteAt 1 (swapEndian32 x) = byteAt 2 x
   \<and> byteAt 2 (swapEndian32 x) = byteAt 1 x \<and> byteAt 3 (swapEndian32 x) = byteAt 0 x
   \<and> swapEndian32 (swapEndian32 x) = x"
  using swapEndian32_twice [of x] byteAt_swapEndian32_0 [of x] byteAt_swapEndian32_1 [of x]
    byteAt_swapEndian32_2 [of x] byteAt_swapEndian32_3 [of x]
  by blast

section \<open>The starting bit offset\<close>

lemma wrap32_id: "- (2 ^ 31) \<le> x \<Longrightarrow> x < 2 ^ 31 \<Longrightarrow> wrap32 x = x"
  unfolding wrap32_def by (rule signed_take_bit_int_eq_self)

lemma wrap32_nonneg: "0 \<le> x \<Longrightarrow> x < 2147483648 \<Longrightarrow> wrap32 x = x"
  by (rule wrap32_id) simp_all

lemma idiv_nonneg: "0 \<le> a \<Longrightarrow> 0 < b \<Longrightarrow> idiv a b = a div b"
  by (cases "a = 0") (simp_all add: idiv_def)

lemma imod_nonneg: "0 \<le> a \<Longrightarrow> 0 < b \<Longrightarrow> imod a b = a mod b"
  by (cases "a = 0") (simp_all add: imod_def)

lemma firstBits_exact:
  assumes "0 \<le> ASCII" "0 < cw" "0 < ch" "0 < dpl"
    and "specBitOffset ASCII cw ch dpl < 2 ^ 31"
  shows "firstBits ASCII cw ch dpl = specBitOffset ASCII cw ch dpl"
proof -
  define c where "c = ASCII mod 64"
  have m: "imod ASCII 64 = c" using assms(1) by (simp add: imod_nonneg c_def)
  have c0: "0 \<le> c * cw" using assms by (simp add: c_def)
  have p0: "0 < ch * dpl" using assms by simp
  show ?thesis
  proof (cases "ASCII < 64")
    case True
    have b: "c * cw < 2 ^ 31" using assms(5) True by (simp add: c_def specBitOffset_def)
    have w1: "wrap32 (c * cw) = c * cw" using c0 b by (intro wrap32_id) simp_all
    show ?thesis using True w1
      by (simp add: firstBits_def specBitOffset_def m iadd_def imul_def flip: c_def)
  next
    case False
    have b: "c * cw + ch * dpl * 32 < 2 ^ 31"
      using assms(5) False by (simp add: c_def specBitOffset_def)
    have w1: "wrap32 (c * cw) = c * cw" using c0 b p0 by (intro wrap32_id) simp_all
    have w2: "wrap32 (ch * dpl) = ch * dpl" using c0 b p0 by (intro wrap32_id) simp_all
    have w3: "wrap32 (ch * dpl * 32) = ch * dpl * 32" using c0 b p0 by (intro wrap32_id) simp_all
    have w4: "wrap32 (c * cw + ch * dpl * 32) = c * cw + ch * dpl * 32"
      using c0 b p0 by (intro wrap32_id) simp_all
    show ?thesis using False w1 w2 w3 w4
      by (simp add: firstBits_def specBitOffset_def m iadd_def imul_def flip: c_def)
  qed
qed

lemma specBitOffset_nonneg:
  "0 \<le> cw \<Longrightarrow> 0 \<le> ch \<Longrightarrow> 0 \<le> dpl \<Longrightarrow> 0 \<le> specBitOffset ASCII cw ch dpl"
  by (simp add: specBitOffset_def)

lemma startState_exact:
  assumes "0 \<le> ASCII" "0 < cw" "0 < ch" "0 < dpl"
    and "specBitOffset ASCII cw ch dpl < 2 ^ 31"
  shows "startState ASCII cw ch dpl =
     (specBitOffset ASCII cw ch dpl, specBitOffset ASCII cw ch dpl div 32,
      specBitOffset ASCII cw ch dpl mod 32)"
  using assms specBitOffset_nonneg [of cw ch dpl ASCII]
  by (simp add: startState_def Let_def firstBits_exact idiv_nonneg imod_nonneg)

text \<open>
  C1, amended. For every asciiCode in [0,127] and all positive charWidth, charHeight and
  dwordsPerLine whose bit offset
  \<open>(asciiCode mod 64) * charWidth + (if asciiCode < 64 then 0 else charHeight * dwordsPerLine * 32)\<close>
  fits a signed 32-bit \<^verbatim>\<open>int\<close>, assembleCharacter starts its extraction at that bit
  offset: the loop it runs starts with \<open>bits\<close> equal to it, \<open>dword\<close> its quotient
  by 32 and \<open>offset\<close> its remainder.
\<close>

theorem startState_is_specBitOffset:
  assumes "0 \<le> asciiCode" "asciiCode \<le> 127" "0 < charWidth" "0 < charHeight" "0 < dwordsPerLine"
    and "specBitOffset asciiCode charWidth charHeight dwordsPerLine < 2 ^ 31"
  shows "startState asciiCode charWidth charHeight dwordsPerLine =
     (specBitOffset asciiCode charWidth charHeight dwordsPerLine,
      specBitOffset asciiCode charWidth charHeight dwordsPerLine div 32,
      specBitOffset asciiCode charWidth charHeight dwordsPerLine mod 32)
   \<and> assembleCharacter data asciiCode charWidth charHeight dwordsPerLine =
     (if \<not> onBoundary (specBitOffset asciiCode charWidth charHeight dwordsPerLine mod 32) charWidth
      then plainLoop data charWidth dwordsPerLine (nat charHeight)
         (specBitOffset asciiCode charWidth charHeight dwordsPerLine,
          specBitOffset asciiCode charWidth charHeight dwordsPerLine div 32,
          specBitOffset asciiCode charWidth charHeight dwordsPerLine mod 32)
      else straddleLoop data charWidth dwordsPerLine (nat charHeight)
         (specBitOffset asciiCode charWidth charHeight dwordsPerLine,
          specBitOffset asciiCode charWidth charHeight dwordsPerLine div 32,
          specBitOffset asciiCode charWidth charHeight dwordsPerLine mod 32))"
  using assms by (simp add: assembleCharacter_def startState_exact)

theorem startState_is_specBitOffset_witness:
  "startState 65 8 16 16 = (8200, 256, 8) \<and> specBitOffset 65 8 16 16 = 8200"
  using startState_is_specBitOffset [of 65 8 16 16] by (simp add: specBitOffset_def)

text \<open>
  C1 as written, for every positive geometry, fails where the offset leaves the range of
  \<^verbatim>\<open>int\<close>: with charWidth 1, charHeight 33554432 and dwordsPerLine 2, code 64 should
  start at bit \<open>2^31\<close>.
\<close>

theorem startState_overflow_counterexample:
  "fst (startState 64 1 33554432 2) \<noteq> specBitOffset 64 1 33554432 2"
  by (simp add: startState_def firstBits_def specBitOffset_def iadd_def imul_def imod_def wrap32_def)

text \<open>
  C7, amended. For positive charWidth, charHeight and dwordsPerLine, the starting bit
  offset of code 0 is 0, whatever the size of the sheet; and for every c in [0,63] such
  that \<open>c * charWidth + charHeight * dwordsPerLine * 32\<close> fits a signed 32-bit \<^verbatim>\<open>int\<close>,
  the starting bit offset of code c + 64 is that of code c plus
  \<open>charHeight * dwordsPerLine * 32\<close>.
\<close>

theorem firstBits_zero_and_lower_half:
  assumes "0 < charWidth" "0 < charHeight" "0 < dwordsPerLine"
  shows "firstBits 0 charWidth charHeight dwordsPerLine = 0
    \<and> (\<forall>c. 0 \<le> c \<and> c \<le> 63 \<and> c * charWidth + charHeight * dwordsPerLine * 32 < 2 ^ 31
          \<longrightarrow> firstBits (c + 64) charWidth charHeight dwordsPerLine
              = firstBits c charWidth charHeight dwordsPerLine + charHeight * dwordsPerLine * 32)"
proof (intro conjI allI impI)
  show "firstBits 0 charWidth charHeight dwordsPerLine = 0"
    by (simp add: firstBits_def iadd_def imul_def imod_def wrap32_def)
next
  fix c :: int
  assume h: "0 \<le> c \<and> c \<le> 63 \<and> c * charWidth + charHeight * dwordsPerLine * 32 < 2 ^ 31"
  then have c0: "0 \<le> c" and c63: "c \<le> 63"
    and b: "c * charWidth + charHeight * dwordsPerLine * 32 < 2 ^ 31" by simp_all
  have p0: "0 < charHeight * dwordsPerLine" using assms by simp
  have lo: "specBitOffset c charWidth charHeight dwordsPerLine = c * charWidth"
    using c0 c63 by (simp add: specBitOffset_def)
  have hi: "specBitOffset (c + 64) charWidth charHeight dwordsPerLine
      = c * charWidth + charHeight * dwordsPerLine * 32"
    using c0 c63 by (simp add: specBitOffset_def)
  have lt: "c * charWidth < 2 ^ 31" using b p0 by linarith
  have "firstBits c charWidth charHeight dwordsPerLine = c * charWidth"
    using assms c0 c63 lt lo by (subst firstBits_exact) simp_all
  moreover have "firstBits (c + 64) charWidth charHeight dwordsPerLine
      = c * charWidth + charHeight * dwordsPerLine * 32"
    using assms c0 c63 b hi by (subst firstBits_exact) simp_all
  ultimately show "firstBits (c + 64) charWidth charHeight dwordsPerLine
              = firstBits c charWidth charHeight dwordsPerLine + charHeight * dwordsPerLine * 32"
    by simp
qed

theorem firstBits_zero_and_lower_half_witness:
  "firstBits 0 8 16 16 = 0 \<and> firstBits (5 + 64) 8 16 16 = firstBits 5 8 16 16 + 16 * 16 * 32
   \<and> firstBits 0 1 33554432 2 = 0"
proof -
  have p: "(0::int) < 8" "(0::int) < 16" "(0::int) < 16" by simp_all
  have q: "(0::int) < 1" "(0::int) < 33554432" "(0::int) < 2" by simp_all
  have c: "(0::int) \<le> 5 \<and> (5::int) \<le> 63 \<and> (5::int) * 8 + 16 * 16 * 32 < 2 ^ 31" by simp
  note t = firstBits_zero_and_lower_half [OF p]
  note u = firstBits_zero_and_lower_half [OF q, THEN conjunct1]
  show ?thesis
    by (intro conjI) (rule t [THEN conjunct1] t [THEN conjunct2, THEN spec, THEN mp, OF c] u)+
qed

text \<open>
  C7 as written fails in its second part on the sheet of 64 by 67108864 pixels
  (charWidth 1, charHeight 33554432, dwordsPerLine 2): the offset of code 64 would be
  \<open>2^31\<close>.
\<close>

theorem firstBits_lower_half_counterexample:
  "firstBits (0 + 64) 1 33554432 2 \<noteq> firstBits 0 1 33554432 2 + 33554432 * 2 * 32"
  by (simp add: firstBits_def iadd_def imul_def imod_def wrap32_def)

section \<open>The scanlines of one call\<close>

lemma advance_exact:
  assumes "0 \<le> b" "0 \<le> dpl" "b + dpl * 32 < 2 ^ 31"
  shows "advance dpl (b, d, off) = (b + dpl * 32, (b + dpl * 32) div 32, (b + dpl * 32) mod 32)"
proof -
  have w1: "wrap32 (dpl * 32) = dpl * 32" using assms by (intro wrap32_id) simp_all
  have w2: "wrap32 (b + dpl * 32) = b + dpl * 32" using assms by (intro wrap32_id) simp_all
  have nn: "0 \<le> b + dpl * 32" using assms by simp
  show ?thesis
    using nn by (simp add: advance_def Let_def iadd_def imul_def w1 w2 idiv_nonneg imod_nonneg)
qed

lemma scan_state:
  assumes "0 \<le> b" "0 \<le> dpl" "b + int i * (dpl * 32) < 2 ^ 31"
  shows "(advance dpl ^^ i) (b, b div 32, b mod 32) =
     (b + int i * (dpl * 32), (b + int i * (dpl * 32)) div 32, (b + int i * (dpl * 32)) mod 32)"
  using assms
proof (induction i)
  case 0
  then show ?case by simp
next
  case (Suc i)
  have le: "b + int i * (dpl * 32) \<le> b + int (Suc i) * (dpl * 32)"
    using Suc.prems(2) by (simp add: algebra_simps)
  have lt: "b + int i * (dpl * 32) < 2 ^ 31" using le Suc.prems(3) by linarith
  have ih: "(advance dpl ^^ i) (b, b div 32, b mod 32) =
     (b + int i * (dpl * 32), (b + int i * (dpl * 32)) div 32, (b + int i * (dpl * 32)) mod 32)"
    using Suc.prems(1,2) lt by (rule Suc.IH)
  have nn: "0 \<le> b + int i * (dpl * 32)" using Suc.prems by simp
  have "advance dpl (b + int i * (dpl * 32), (b + int i * (dpl * 32)) div 32, (b + int i * (dpl * 32)) mod 32)
      = (b + int i * (dpl * 32) + dpl * 32, (b + int i * (dpl * 32) + dpl * 32) div 32,
         (b + int i * (dpl * 32) + dpl * 32) mod 32)"
    using nn Suc.prems by (intro advance_exact) (simp_all add: algebra_simps)
  then show ?case using ih by (simp add: algebra_simps)
qed

lemma scan_offset:
  assumes "0 \<le> b" "0 \<le> dpl" "b + int i * (dpl * 32) < 2 ^ 31"
  shows "snd (snd ((advance dpl ^^ i) (b, b div 32, b mod 32))) = b mod 32"
    and "fst (snd ((advance dpl ^^ i) (b, b div 32, b mod 32))) = b div 32 + int i * dpl"
    and "fst ((advance dpl ^^ i) (b, b div 32, b mod 32)) = b + int i * (dpl * 32)"
proof -
  have e: "b + int i * (dpl * 32) = b + (int i * dpl) * 32" by simp
  have m: "(b + int i * (dpl * 32)) mod 32 = b mod 32" unfolding e by simp
  show "snd (snd ((advance dpl ^^ i) (b, b div 32, b mod 32))) = b mod 32"
    using assms m by (simp add: scan_state)
  show "fst (snd ((advance dpl ^^ i) (b, b div 32, b mod 32))) = b div 32 + int i * dpl"
    using assms unfolding scan_state [OF assms] e by simp
  show "fst ((advance dpl ^^ i) (b, b div 32, b mod 32)) = b + int i * (dpl * 32)"
    using assms by (simp add: scan_state)
qed

lemma recheckLoop_hoist:
  assumes "\<And>i. i < n \<Longrightarrow> onBoundary (snd (snd ((advance dpl ^^ i) st))) cw = bd"
  shows "recheckLoop data cw dpl n st =
     (if \<not> bd then plainLoop data cw dpl n st else straddleLoop data cw dpl n st)"
  using assms
proof (induction n arbitrary: st)
  case 0
  then show ?case by simp
next
  case (Suc n)
  have h0: "onBoundary (snd (snd st)) cw = bd" using Suc.prems [of 0] by simp
  have "\<And>i. i < n \<Longrightarrow> onBoundary (snd (snd ((advance dpl ^^ i) (advance dpl st)))) cw = bd"
    using Suc.prems [of "Suc _"] by (simp add: funpow_swap1)
  then have ih: "recheckLoop data cw dpl n (advance dpl st) =
     (if \<not> bd then plainLoop data cw dpl n (advance dpl st)
      else straddleLoop data cw dpl n (advance dpl st))"
    by (rule Suc.IH)
  show ?case
  proof (cases bd)
    case True
    then show ?thesis using h0 ih by (simp split: sum.splits)
  next
    case False
    then show ?thesis using h0 ih by (simp split: sum.splits)
  qed
qed


lemma scanline_offsets:
  assumes "0 \<le> ASCII" "0 < cw" "0 < ch" "0 < dpl"
    and "specBitOffset ASCII cw ch dpl + (ch - 1) * (dpl * 32) < 2 ^ 31"
    and "i < nat ch"
  shows "(advance dpl ^^ i) (startState ASCII cw ch dpl) =
     (specBitOffset ASCII cw ch dpl + int i * (dpl * 32),
      specBitOffset ASCII cw ch dpl div 32 + int i * dpl,
      specBitOffset ASCII cw ch dpl mod 32)"
proof -
  define F where "F = specBitOffset ASCII cw ch dpl"
  have F0: "0 \<le> F" unfolding F_def using assms by (intro specBitOffset_nonneg) simp_all
  have "int i \<le> ch - 1" using assms(6) by simp
  then have "int i * (dpl * 32) \<le> (ch - 1) * (dpl * 32)"
    using assms(4) by (intro mult_right_mono) simp_all
  then have b: "F + int i * (dpl * 32) < 2 ^ 31" using assms(5) unfolding F_def by linarith
  have "0 \<le> int i * (dpl * 32)" using assms(4) by simp
  then have "F < 2 ^ 31" using b by linarith
  then have st: "startState ASCII cw ch dpl = (F, F div 32, F mod 32)"
    unfolding F_def using assms by (intro startState_exact)
  have dpl0: "0 \<le> dpl" using assms(4) by simp
  show ?thesis
    using scan_offset [OF F0 dpl0 b] unfolding st F_def [symmetric]
    by (simp add: prod_eq_iff)
qed

text \<open>
  C10, amended. Within one call of assembleCharacter, for a code in [0,127] and positive
  charWidth, charHeight and dwordsPerLine such that the bit offset of the glyph's last
  scanline, \<open>bitOffset + (charHeight - 1) * dwordsPerLine * 32\<close>, fits a signed 32-bit
  \<^verbatim>\<open>int\<close>, the offset within the word is the same on every scanline, since each
  advance adds \<open>dwordsPerLine * 32\<close>; so the test made once before the loop holds on
  every scanline, and the function equals the one that tests again on every scanline.
\<close>

theorem hoisted_branch_valid:
  assumes "0 \<le> ASCII" "ASCII \<le> 127" "0 < charWidth" "0 < charHeight" "0 < dwordsPerLine"
    and "specBitOffset ASCII charWidth charHeight dwordsPerLine
          + (charHeight - 1) * (dwordsPerLine * 32) < 2 ^ 31"
  shows "(\<forall>i < nat charHeight.
            snd (snd ((advance dwordsPerLine ^^ i) (startState ASCII charWidth charHeight dwordsPerLine)))
            = snd (snd (startState ASCII charWidth charHeight dwordsPerLine)))
    \<and> (\<forall>i < nat charHeight.
            onBoundary (snd (snd ((advance dwordsPerLine ^^ i)
                (startState ASCII charWidth charHeight dwordsPerLine)))) charWidth
            = onBoundary (snd (snd (startState ASCII charWidth charHeight dwordsPerLine))) charWidth)
    \<and> assembleCharacter data ASCII charWidth charHeight dwordsPerLine
        = assembleCharacter_recheck data ASCII charWidth charHeight dwordsPerLine"
proof -
  let ?st = "startState ASCII charWidth charHeight dwordsPerLine"
  have z: "0 < nat charHeight" using assms(4) by simp
  have off: "snd (snd ((advance dwordsPerLine ^^ i) ?st)) = snd (snd ?st)" if "i < nat charHeight" for i
    using scanline_offsets [OF assms(1,3,4,5,6) that] scanline_offsets [OF assms(1,3,4,5,6) z]
    by simp
  then have bd: "onBoundary (snd (snd ((advance dwordsPerLine ^^ i) ?st))) charWidth
      = onBoundary (snd (snd ?st)) charWidth" if "i < nat charHeight" for i
    using that by simp
  have "recheckLoop data charWidth dwordsPerLine (nat charHeight) ?st =
     (if \<not> onBoundary (snd (snd ?st)) charWidth
      then plainLoop data charWidth dwordsPerLine (nat charHeight) ?st
      else straddleLoop data charWidth dwordsPerLine (nat charHeight) ?st)"
    using bd by (rule recheckLoop_hoist)
  then have "assembleCharacter data ASCII charWidth charHeight dwordsPerLine
        = assembleCharacter_recheck data ASCII charWidth charHeight dwordsPerLine"
    by (simp add: assembleCharacter_def assembleCharacter_recheck_def Let_def)
  then show ?thesis using off bd by blast
qed

theorem hoisted_branch_valid_witness:
  "snd (snd ((advance 6 ^^ 1) (startState 10 3 2 6))) = snd (snd (startState 10 3 2 6))
   \<and> onBoundary (snd (snd ((advance 6 ^^ 1) (startState 10 3 2 6)))) 3
       = onBoundary (snd (snd (startState 10 3 2 6))) 3
   \<and> assembleCharacter [0, 5, 0, 0, 0, 0, 3, 0xC0000000, 0, 0, 0, 0,
                          0, 0, 0, 0, 0, 0, 0, 0, 0, 0, 0, 0] 10 3 2 6
       = assembleCharacter_recheck [0, 5, 0, 0, 0, 0, 3, 0xC0000000, 0, 0, 0, 0,
                          0, 0, 0, 0, 0, 0, 0, 0, 0, 0, 0, 0] 10 3 2 6
   \<and> startState 10 3 2 6 = (30, 0, 30) \<and> onBoundary 30 3"
proof -
  have s: "startState 10 3 2 6 = (30, 0, 30)"
    by (simp add: startState_def firstBits_def iadd_def imul_def imod_def idiv_def wrap32_def)
  have b: "onBoundary 30 3"
    by (simp add: onBoundary_def iadd_def wrap32_def)
  have p: "specBitOffset 10 3 2 6 + (2 - 1) * (6 * 32) < 2 ^ 31"
    by (simp add: specBitOffset_def)
  have i: "(1::nat) < nat 2" by simp
  have h: "(0::int) \<le> 10" "(10::int) \<le> 127" "(0::int) < 3" "(0::int) < 2" "(0::int) < 6"
    by simp_all
  note t = hoisted_branch_valid [of 10 3 2 6
        "[0, 5, 0, 0, 0, 0, 3, 0xC0000000, 0, 0, 0, 0, 0, 0, 0, 0, 0, 0, 0, 0, 0, 0, 0, 0]",
        OF h p]
  note t1 = t [THEN conjunct1, THEN spec, THEN mp, OF i]
  note t2 = t [THEN conjunct2, THEN conjunct1, THEN spec, THEN mp, OF i]
  note t3 = t [THEN conjunct2, THEN conjunct2]
  show ?thesis
    by (intro conjI) (rule t1 t2 t3 s b)+
qed

text \<open>
  The glyph of code 74 on a sheet of 192 by 16777216 pixels (charWidth 3, charHeight
  8388608, dwordsPerLine 6) starts at bit 1610612766, offset 30 in its word. Scanline
  2796202 is the last one whose bit offset an \<^verbatim>\<open>int\<close> holds; the addition of line 64 or
  84 then wraps.
\<close>

lemma funpow_numeral_step: "(f ^^ Suc n) s = f ((f ^^ n) s)"
  by simp

lemma tall_start: "startState 74 3 8388608 6 = (1610612766, 50331648, 30)"
  by (simp add: startState_def firstBits_def iadd_def imul_def imod_def idiv_def wrap32_def)

lemma tall_last_good:
  "(advance 6 ^^ 2796202) (startState 74 3 8388608 6) = (2147483550, 67108860, 30)"
proof -
  have b: "(0::int) \<le> 1610612766" and d: "(0::int) \<le> 6" by simp_all
  have r: "1610612766 + int 2796202 * (6 * 32) < (2::int) ^ 31" by simp
  have s: "(1610612766, 50331648, 30)
      = (1610612766 :: int, 1610612766 div 32 :: int, 1610612766 mod 32 :: int)"
    by simp
  show ?thesis
    unfolding tall_start s scan_state [OF b d r] by simp
qed

lemma tall_wrapped:
  "(advance 6 ^^ 2796203) (startState 74 3 8388608 6) = (- 2147483554, - 67108861, - 2)"
proof -
  have n: "(2796203::nat) = Suc 2796202" by simp
  have a: "advance 6 (2147483550, 67108860, 30) = (- 2147483554, - 67108861, - 2)"
    by (simp add: advance_def iadd_def imul_def imod_def idiv_def wrap32_def)
  show ?thesis
    unfolding n funpow_numeral_step tall_last_good a ..
qed

text \<open>
  C10 as written, for every call, fails on that glyph: scanline 2796203 of its 8388608
  scanlines has the offset \<open>- 2\<close> against 30 on the first one, and the test
  \<open>offset + charWidth > 32\<close>, true before the loop, is false there.
\<close>

theorem hoisted_branch_overflow_counterexample:
  "snd (snd ((advance 6 ^^ 2796203) (startState 74 3 8388608 6)))
     \<noteq> snd (snd (startState 74 3 8388608 6))
   \<and> onBoundary (snd (snd ((advance 6 ^^ 2796203) (startState 74 3 8388608 6)))) 3
     \<noteq> onBoundary (snd (snd (startState 74 3 8388608 6))) 3
   \<and> (2796203::nat) < nat 8388608"
proof -
  have a: "snd (snd ((advance 6 ^^ 2796203) (startState 74 3 8388608 6))) = - 2"
    by (simp only: tall_wrapped snd_conv)
  have b: "snd (snd (startState 74 3 8388608 6)) = 30"
    by (simp only: tall_start snd_conv)
  show ?thesis unfolding a b by (simp add: onBoundary_def iadd_def wrap32_def)
qed

section \<open>One scanline, as words\<close>

lemma to_u32_wrap32: "to_u32 (wrap32 x) = to_u32 x"
  unfolding to_u32_def wrap32_def
proof (rule bit_word_eqI)
  fix n assume "n < LENGTH(32)"
  then have "min 31 n = n" by simp
  then show "bit (word_of_int (signed_take_bit 31 x) :: 32 word) n = bit (word_of_int x :: 32 word) n"
    by (simp add: bit_simps)
qed

lemma to_u32_isub: "to_u32 (isub a b) = to_u32 a - to_u32 b"
  by (simp add: isub_def to_u32_wrap32) (simp add: to_u32_def)

lemma to_u32_pow: "to_u32 (2 ^ n) = 2 ^ n"
  by (simp add: to_u32_def)

lemma mask_of_shl:
  assumes "0 \<le> n" "n < 32"
  shows "thenE (shl_int 1 n) f = f (wrap32 (2 ^ nat n))"
    and "to_u32 (isub (wrap32 (2 ^ nat n)) 1) = mask (nat n)"
  using assms
  by (simp_all add: shl_int_def thenE_def to_u32_isub to_u32_wrap32 to_u32_pow mask_eq_exp_minus_1)
    (simp add: to_u32_def)

lemma isub_small: "\<bar>a\<bar> \<le> 1000 \<Longrightarrow> \<bar>b\<bar> \<le> 1000 \<Longrightarrow> isub a b = a - b"
  unfolding isub_def by (rule wrap32_id) simp_all

lemma iadd_small: "\<bar>a\<bar> \<le> 1000 \<Longrightarrow> \<bar>b\<bar> \<le> 1000 \<Longrightarrow> iadd a b = a + b"
  unfolding iadd_def by (rule wrap32_id) simp_all

lemma plainRow_value:
  assumes "1 \<le> cw" "cw \<le> 31" "0 \<le> offset" "offset + cw \<le> 32"
    and "0 \<le> dword" "dword < int (length data)"
  shows "plainRow data cw dword offset =
     Inr (take_bit (nat cw) (drop_bit (nat (32 - cw - offset)) (data ! nat dword)))"
proof -
  have c: "isub (isub 32 cw) offset = 32 - cw - offset"
    using assms by (simp add: isub_small)
  have r: "readWord data dword = Inr (data ! nat dword)"
    using assms by (simp add: readWord_def)
  have s: "shr_u32 w (32 - cw - offset) = Inr (drop_bit (nat (32 - cw - offset)) w)" for w
    using assms by (simp add: shr_u32_def)
  have n: "0 \<le> cw" "cw < 32" using assms by simp_all
  show ?thesis
    unfolding plainRow_def mask_of_shl(1) [OF n] Let_def mask_of_shl(2) [OF n] r c
    by (simp add: thenE_def s take_bit_eq_mask)
qed


lemma to_u32_mult: "to_u32 (a * b) = to_u32 a * to_u32 b"
  by (simp add: to_u32_def)

lemma shl_int_value:
  "0 \<le> n \<Longrightarrow> n < 32 \<Longrightarrow> thenE (shl_int a n) f = f (wrap32 (a * 2 ^ nat n))"
  by (simp add: shl_int_def thenE_def)

lemma straddleRow_value:
  assumes "1 \<le> cw" "cw \<le> 32" "0 \<le> offset" "offset < 32" "32 < offset + cw"
    and "0 \<le> dword" "dword + 1 < int (length data)" "dword + 1 < 2 ^ 31"
  shows "straddleRow data cw dword offset =
     Inr (push_bit (nat (cw - (32 - offset))) (take_bit (nat (32 - offset)) (data ! nat dword))
          OR drop_bit (nat (32 - (cw - (32 - offset))))
               (data ! nat (dword + 1)
                AND push_bit (nat (32 - (cw - (32 - offset)))) (mask (nat (cw - (32 - offset))))))"
proof -
  define m where "m = 32 - offset"
  define k where "k = cw - m"
  have mr: "0 \<le> m" "m < 32" using assms by (simp_all add: m_def)
  have kr: "0 \<le> k" "k < 32" using assms by (simp_all add: k_def m_def)
  have kr': "0 \<le> 32 - k" "32 - k < 32" using assms by (simp_all add: k_def m_def)
  have c1: "isub 32 offset = m" using assms by (simp add: isub_small m_def)
  have c2: "isub cw m = k" using assms by (simp add: isub_small k_def m_def)
  have c3: "isub 32 k = 32 - k" using assms by (simp add: isub_small k_def m_def)
  have c4: "iadd dword 1 = dword + 1"
    unfolding iadd_def using assms by (intro wrap32_id) simp_all
  have r0: "readWord data dword = Inr (data ! nat dword)"
    using assms by (simp add: readWord_def)
  have r1: "readWord data (dword + 1) = Inr (data ! nat (dword + 1))"
    using assms by (simp add: readWord_def)
  have m2: "to_u32 (wrap32 (isub (wrap32 (2 ^ nat k)) 1 * 2 ^ nat (32 - k)))
      = push_bit (nat (32 - k)) (mask (nat k))"
    unfolding to_u32_wrap32 to_u32_mult mask_of_shl(2) [OF kr]
    by (simp add: to_u32_def push_bit_eq_mult)
  have sl: "shl_u32 w k = Inr (push_bit (nat k) w)" for w
    using kr by (simp add: shl_u32_def)
  have sr: "shr_u32 w (32 - k) = Inr (drop_bit (nat (32 - k)) w)" for w
    using kr' by (simp add: shr_u32_def)
  have "straddleRow data cw dword offset =
     Inr (push_bit (nat k) (take_bit (nat m) (data ! nat dword))
          OR drop_bit (nat (32 - k))
               (data ! nat (dword + 1) AND push_bit (nat (32 - k)) (mask (nat k))))"
    unfolding straddleRow_def c1 c2 c3 c4 mask_of_shl(1) [OF mr] mask_of_shl(1) [OF kr]
      shl_int_value [OF kr'] Let_def mask_of_shl(2) [OF mr] m2 r0 r1
    by (simp add: thenE_def sl sr take_bit_eq_mask)
  then show ?thesis unfolding k_def m_def .
qed

lemma bit_plain_value:
  fixes w :: uint32
  assumes "c + s \<le> 32"
  shows "bit (take_bit c (drop_bit s w)) j \<longleftrightarrow> j < c \<and> bit w (j + s)"
  by (auto simp add: bit_simps ac_simps)

lemma bit_straddle_value:
  fixes w0 w1 :: uint32
  assumes "k < 32" "0 < k" "k + m \<le> 32"
  shows "bit (push_bit k (take_bit m w0) OR drop_bit (32 - k) (w1 AND push_bit (32 - k) (mask k))) j
     \<longleftrightarrow> j < k + m \<and> (if j < k then bit w1 (j + (32 - k)) else bit w0 (j - k))"
  using assms
  by (auto simp add: bit_simps ac_simps dest: bit_imp_le_length)

section \<open>The loops\<close>

lemma plainLoop_rows:
  assumes "\<And>i. i < n \<Longrightarrow>
     plainRow data cw (fst (snd ((advance dpl ^^ i) st))) (snd (snd ((advance dpl ^^ i) st))) = Inr (v i)"
  shows "plainLoop data cw dpl n st = Inr (map v [0..<n])"
  using assms
proof (induction n arbitrary: st v)
  case 0
  then show ?case by simp
next
  case (Suc n)
  have h0: "plainRow data cw (fst (snd st)) (snd (snd st)) = Inr (v 0)"
    using Suc.prems [of 0] by simp
  have "\<And>i. i < n \<Longrightarrow>
     plainRow data cw (fst (snd ((advance dpl ^^ i) (advance dpl st))))
        (snd (snd ((advance dpl ^^ i) (advance dpl st)))) = Inr ((v \<circ> Suc) i)"
    using Suc.prems [of "Suc _"] by (simp add: funpow_swap1)
  then have ih: "plainLoop data cw dpl n (advance dpl st) = Inr (map (v \<circ> Suc) [0..<n])"
    by (rule Suc.IH)
  have "map v [0..<Suc n] = v 0 # map (v \<circ> Suc) [0..<n]"
    by (simp add: upt_conv_Cons map_Suc_upt [symmetric] del: upt_Suc)
  then show ?case using h0 ih by simp
qed

lemma straddleLoop_rows:
  assumes "\<And>i. i < n \<Longrightarrow>
     straddleRow data cw (fst (snd ((advance dpl ^^ i) st))) (snd (snd ((advance dpl ^^ i) st))) = Inr (v i)"
  shows "straddleLoop data cw dpl n st = Inr (map v [0..<n])"
  using assms
proof (induction n arbitrary: st v)
  case 0
  then show ?case by simp
next
  case (Suc n)
  have h0: "straddleRow data cw (fst (snd st)) (snd (snd st)) = Inr (v 0)"
    using Suc.prems [of 0] by simp
  have "\<And>i. i < n \<Longrightarrow>
     straddleRow data cw (fst (snd ((advance dpl ^^ i) (advance dpl st))))
        (snd (snd ((advance dpl ^^ i) (advance dpl st)))) = Inr ((v \<circ> Suc) i)"
    using Suc.prems [of "Suc _"] by (simp add: funpow_swap1)
  then have ih: "straddleLoop data cw dpl n (advance dpl st) = Inr (map (v \<circ> Suc) [0..<n])"
    by (rule Suc.IH)
  have "map v [0..<Suc n] = v 0 # map (v \<circ> Suc) [0..<n]"
    by (simp add: upt_conv_Cons map_Suc_upt [symmetric] del: upt_Suc)
  then show ?case using h0 ih by simp
qed

lemma onBoundary_small:
  "0 \<le> off \<Longrightarrow> off < 32 \<Longrightarrow> 0 \<le> cw \<Longrightarrow> cw \<le> 32 \<Longrightarrow> onBoundary off cw \<longleftrightarrow> 32 < off + cw"
  by (simp add: onBoundary_def iadd_small)

lemma scanline_word_bound:
  assumes "0 < dpl" "0 \<le> F" "i < nat ch"
    and "(F + (ch - 1) * (dpl * 32)) div 32 + e < L"
  shows "F div 32 + int i * dpl + e < L" "0 \<le> F div 32 + int i * dpl"
proof -
  have "int i \<le> ch - 1" using assms(3) by simp
  then have "int i * dpl \<le> (ch - 1) * dpl" using assms(1) by (intro mult_right_mono) simp_all
  moreover have "(F + (ch - 1) * (dpl * 32)) div 32 = F div 32 + (ch - 1) * dpl"
  proof -
    have "F + (ch - 1) * (dpl * 32) = F + ((ch - 1) * dpl) * 32" by simp
    then show ?thesis by (simp del: mult.assoc)
  qed
  ultimately show "F div 32 + int i * dpl + e < L" using assms(4) by linarith
  have "0 \<le> F div 32" using assms(2) by (simp add: pos_imp_zdiv_nonneg_iff)
  moreover have "0 \<le> int i * dpl" using assms(1) by simp
  ultimately show "0 \<le> F div 32 + int i * dpl" by linarith
qed

lemma first_offset_in_range:
  fixes F :: int
  assumes "0 < ch" "0 < dpl" "0 \<le> F" "F + (ch - 1) * (dpl * 32) < 2 ^ 31"
  shows "F < 2 ^ 31"
proof -
  have "0 \<le> (ch - 1) * (dpl * 32)" using assms by simp
  then show ?thesis using assms(4) by linarith
qed

lemma assembleCharacter_straddle_rows:
  assumes "0 \<le> ASCII" "1 \<le> cw" "cw \<le> 32" "0 < ch" "0 < dpl"
    and rng: "specBitOffset ASCII cw ch dpl + (ch - 1) * (dpl * 32) < 2 ^ 31"
    and buf: "(specBitOffset ASCII cw ch dpl + (ch - 1) * (dpl * 32)) div 32 + 1 < int (length data)"
    and str: "32 < specBitOffset ASCII cw ch dpl mod 32 + cw"
  shows "assembleCharacter data ASCII cw ch dpl =
     Inr (map (\<lambda>i.
        push_bit (nat (cw - (32 - specBitOffset ASCII cw ch dpl mod 32)))
          (take_bit (nat (32 - specBitOffset ASCII cw ch dpl mod 32))
             (data ! nat (specBitOffset ASCII cw ch dpl div 32 + int i * dpl)))
        OR drop_bit (nat (32 - (cw - (32 - specBitOffset ASCII cw ch dpl mod 32))))
             (data ! nat (specBitOffset ASCII cw ch dpl div 32 + int i * dpl + 1)
              AND push_bit (nat (32 - (cw - (32 - specBitOffset ASCII cw ch dpl mod 32))))
                    (mask (nat (cw - (32 - specBitOffset ASCII cw ch dpl mod 32))))))
       [0..<nat ch])"
proof -
  define F where "F = specBitOffset ASCII cw ch dpl"
  have cw0: "0 < cw" using assms by simp
  have F0: "0 \<le> F" unfolding F_def using assms by (intro specBitOffset_nonneg) simp_all
  have Flt: "F < 2 ^ 31" using first_offset_in_range [OF assms(4,5) F0] rng by (simp add: F_def)
  have st: "startState ASCII cw ch dpl = (F, F div 32, F mod 32)"
    unfolding F_def using assms(1) cw0 assms(4,5) Flt [unfolded F_def] by (intro startState_exact)
  have o: "0 \<le> F mod 32" "F mod 32 < 32" by simp_all
  have ob: "onBoundary (F mod 32) cw"
    using o assms str by (simp add: onBoundary_small F_def)
  have row: "straddleRow data cw (fst (snd ((advance dpl ^^ i) (startState ASCII cw ch dpl))))
        (snd (snd ((advance dpl ^^ i) (startState ASCII cw ch dpl)))) =
     Inr (push_bit (nat (cw - (32 - F mod 32)))
          (take_bit (nat (32 - F mod 32)) (data ! nat (F div 32 + int i * dpl)))
        OR drop_bit (nat (32 - (cw - (32 - F mod 32))))
             (data ! nat (F div 32 + int i * dpl + 1)
              AND push_bit (nat (32 - (cw - (32 - F mod 32)))) (mask (nat (cw - (32 - F mod 32))))))"
    if i: "i < nat ch" for i
  proof -
    have s: "(advance dpl ^^ i) (startState ASCII cw ch dpl) = (F + int i * (dpl * 32), F div 32 + int i * dpl, F mod 32)"
      unfolding F_def using assms(1) cw0 assms(4,5) rng i by (rule scanline_offsets)
    have b1: "F div 32 + int i * dpl + 1 < int (length data)" and b0: "0 \<le> F div 32 + int i * dpl"
      using scanline_word_bound [OF assms(5) F0 i, of 1 "int (length data)"] buf
      by (simp_all add: F_def)
    define T where "T = F + (ch - 1) * (dpl * 32)"
    have "T < 2147483648" using rng by (simp add: T_def F_def)
    then have "T div 32 + 1 < 2147483648" by presburger
    then have "(F + (ch - 1) * (dpl * 32)) div 32 + 1 < 2 ^ 31" by (simp add: T_def)
    then have b2: "F div 32 + int i * dpl + 1 < 2 ^ 31"
      using scanline_word_bound(1) [OF assms(5) F0 i, of 1 "2 ^ 31"] by simp
    show ?thesis
      unfolding s using assms(2,3) o str [unfolded F_def [symmetric]] b0 b1 b2
      by (simp add: straddleRow_value)
  qed
  have "straddleLoop data cw dpl (nat ch) (startState ASCII cw ch dpl) = Inr (map (\<lambda>i.
        push_bit (nat (cw - (32 - F mod 32)))
          (take_bit (nat (32 - F mod 32)) (data ! nat (F div 32 + int i * dpl)))
        OR drop_bit (nat (32 - (cw - (32 - F mod 32))))
             (data ! nat (F div 32 + int i * dpl + 1)
              AND push_bit (nat (32 - (cw - (32 - F mod 32)))) (mask (nat (cw - (32 - F mod 32))))))
       [0..<nat ch])"
    using row by (rule straddleLoop_rows)
  then show ?thesis
    using ob by (simp add: assembleCharacter_def Let_def st F_def)
qed

section \<open>One scanline, as pixels\<close>

lemma div_mod_32:
  fixes q x :: nat
  assumes "x < 32"
  shows "(32 * q + x) div 32 = q" "(32 * q + x) mod 32 = x"
  using assms by simp_all

lemma pixelAt_plain:
  assumes "po + pw \<le> 32" "j < pw"
  shows "pixelAt data (32 * pd + po + (pw - 1 - j)) = bit (data ! pd) (j + (32 - pw - po))"
proof -
  define x where "x = po + (pw - 1 - j)"
  have x: "x < 32" using assms by (simp add: x_def)
  have d: "(32 * pd + x) div 32 = pd" using x by simp
  have m: "(32 * pd + x) mod 32 = x" using x by simp
  have e: "31 - x = j + (32 - pw - po)" using assms by (simp add: x_def)
  have "pixelAt data (32 * pd + x) = bit (data ! pd) (j + (32 - pw - po))"
    unfolding pixelAt_def d m e ..
  then show ?thesis by (simp add: x_def add.assoc)
qed

lemma pixelAt_straddle:
  assumes "po < 32" "pw \<le> 32" "32 < po + pw" "j < pw"
  shows "pixelAt data (32 * pd + po + (pw - 1 - j)) =
     (if j < po + pw - 32 then bit (data ! (pd + 1)) (j + (32 - (po + pw - 32)))
      else bit (data ! pd) (j - (po + pw - 32)))"
proof (cases "j < po + pw - 32")
  case True
  define x where "x = po + (pw - 1 - j) - 32"
  have x: "x < 32" "po + (pw - 1 - j) = 32 + x" using assms True by (simp_all add: x_def)
  have d: "(32 * (pd + 1) + x) div 32 = pd + 1" using x(1) by (rule div_mod_32)
  have m: "(32 * (pd + 1) + x) mod 32 = x" using x(1) by (rule div_mod_32)
  have e: "31 - x = j + (32 - (po + pw - 32))" using assms True by (simp add: x_def)
  have main: "pixelAt data (32 * (pd + 1) + x) = bit (data ! (pd + 1)) (j + (32 - (po + pw - 32)))"
    unfolding pixelAt_def d m e ..
  have eq: "32 * pd + po + (pw - 1 - j) = 32 * (pd + 1) + x" using x(2) by simp
  show ?thesis unfolding eq if_P [OF True] by (rule main)
next
  case False
  define x where "x = po + (pw - 1 - j)"
  have x: "x < 32" using assms False by (simp add: x_def)
  have d: "(32 * pd + x) div 32 = pd" using x by simp
  have m: "(32 * pd + x) mod 32 = x" using x by simp
  have e: "31 - x = j - (po + pw - 32)" using assms False by (simp add: x_def)
  have "pixelAt data (32 * pd + x) = bit (data ! pd) (j - (po + pw - 32))"
    unfolding pixelAt_def d m e ..
  then show ?thesis using False by (simp add: x_def add.assoc)
qed

lemma plain_value_pixels:
  fixes data :: "uint32 list"
  assumes "po + pw \<le> 32"
  shows "bit (take_bit pw (drop_bit (32 - pw - po) (data ! pd))) j
     \<longleftrightarrow> j < pw \<and> pixelAt data (32 * pd + po + (pw - 1 - j))"
  using assms pixelAt_plain [OF assms, of j data pd]
  by (auto simp add: bit_plain_value)

lemma straddle_value_pixels:
  fixes data :: "uint32 list"
  assumes "po < 32" "pw \<le> 32" "32 < po + pw"
  shows "bit (push_bit (pw - (32 - po)) (take_bit (32 - po) (data ! pd))
              OR drop_bit (32 - (pw - (32 - po)))
                   (data ! (pd + 1) AND push_bit (32 - (pw - (32 - po))) (mask (pw - (32 - po))))) j
     \<longleftrightarrow> j < pw \<and> pixelAt data (32 * pd + po + (pw - 1 - j))"
proof -
  define k where "k = pw - (32 - po)"
  have k: "k < 32" "0 < k" "k + (32 - po) \<le> 32" "k + (32 - po) = pw" "k = po + pw - 32"
    using assms by (simp_all add: k_def)
  have "bit (push_bit k (take_bit (32 - po) (data ! pd))
              OR drop_bit (32 - k) (data ! (pd + 1) AND push_bit (32 - k) (mask k))) j
     \<longleftrightarrow> j < pw \<and> (if j < k then bit (data ! (pd + 1)) (j + (32 - k)) else bit (data ! pd) (j - k))"
    using bit_straddle_value [OF k(1,2,3), of "data ! pd" "data ! (pd + 1)" j] k(4) by simp
  also have "\<dots> \<longleftrightarrow> j < pw \<and> pixelAt data (32 * pd + po + (pw - 1 - j))"
    using pixelAt_straddle [OF assms, of j data pd] k(5) by auto
  finally show ?thesis unfolding k_def .
qed

lemma straddle_value_nat:
  fixes data :: "uint32 list"
  assumes "1 \<le> cw" "0 \<le> off" "off < 32" "32 < off + cw" "0 \<le> d"
  shows "push_bit (nat (cw - (32 - off))) (take_bit (nat (32 - off)) (data ! nat d))
        OR drop_bit (nat (32 - (cw - (32 - off))))
             (data ! nat (d + 1)
              AND push_bit (nat (32 - (cw - (32 - off)))) (mask (nat (cw - (32 - off)))))
     = push_bit (nat cw - (32 - nat off)) (take_bit (32 - nat off) (data ! nat d))
        OR drop_bit (32 - (nat cw - (32 - nat off)))
             (data ! (nat d + 1)
              AND push_bit (32 - (nat cw - (32 - nat off))) (mask (nat cw - (32 - nat off))))"
proof -
  have a: "nat (cw - (32 - off)) = nat cw - (32 - nat off)" using assms by linarith
  have b: "nat (32 - off) = 32 - nat off" using assms by linarith
  have c: "nat (32 - (cw - (32 - off))) = 32 - (nat cw - (32 - nat off))" using assms by linarith
  have e: "nat (d + 1) = nat d + 1" using assms by linarith
  show ?thesis unfolding a b c e ..
qed

lemma plain_value_nat:
  fixes data :: "uint32 list"
  assumes "1 \<le> cw" "0 \<le> off" "off + cw \<le> 32"
  shows "take_bit (nat cw) (drop_bit (nat (32 - cw - off)) w)
       = take_bit (nat cw) (drop_bit (32 - nat cw - nat off) w)"
proof -
  have a: "nat (32 - cw - off) = 32 - nat cw - nat off" using assms by linarith
  show ?thesis unfolding a ..
qed

section \<open>The rows of a glyph\<close>

lemma assembleCharacter_plain_rows:
  assumes "0 \<le> ASCII" "1 \<le> cw" "cw \<le> 31" "0 < ch" "0 < dpl"
    and rng: "specBitOffset ASCII cw ch dpl + (ch - 1) * (dpl * 32) < 2 ^ 31"
    and buf: "(specBitOffset ASCII cw ch dpl + (ch - 1) * (dpl * 32)) div 32 < int (length data)"
    and fit: "specBitOffset ASCII cw ch dpl mod 32 + cw \<le> 32"
  shows "assembleCharacter data ASCII cw ch dpl =
     Inr (map (\<lambda>i. take_bit (nat cw)
                 (drop_bit (nat (32 - cw - specBitOffset ASCII cw ch dpl mod 32))
                    (data ! nat (specBitOffset ASCII cw ch dpl div 32 + int i * dpl))))
       [0..<nat ch])"
proof -
  define F where "F = specBitOffset ASCII cw ch dpl"
  have cw0: "0 < cw" using assms by simp
  have F0: "0 \<le> F" unfolding F_def using assms by (intro specBitOffset_nonneg) simp_all
  have Flt: "F < 2 ^ 31" using first_offset_in_range [OF assms(4,5) F0] rng by (simp add: F_def)
  have st: "startState ASCII cw ch dpl = (F, F div 32, F mod 32)"
    unfolding F_def using assms(1) cw0 assms(4,5) Flt [unfolded F_def] by (intro startState_exact)
  have o: "0 \<le> F mod 32" "F mod 32 < 32" by simp_all
  have ob: "\<not> onBoundary (F mod 32) cw"
    using o assms fit by (simp add: onBoundary_small F_def)
  have row: "plainRow data cw (fst (snd ((advance dpl ^^ i) (startState ASCII cw ch dpl))))
        (snd (snd ((advance dpl ^^ i) (startState ASCII cw ch dpl)))) =
     Inr (take_bit (nat cw) (drop_bit (nat (32 - cw - F mod 32)) (data ! nat (F div 32 + int i * dpl))))"
    if i: "i < nat ch" for i
  proof -
    have s: "(advance dpl ^^ i) (startState ASCII cw ch dpl) = (F + int i * (dpl * 32), F div 32 + int i * dpl, F mod 32)"
      unfolding F_def using assms(1) cw0 assms(4,5) rng i by (rule scanline_offsets)
    have b1: "F div 32 + int i * dpl < int (length data)" and b0: "0 \<le> F div 32 + int i * dpl"
      using scanline_word_bound [OF assms(5) F0 i, of 0 "int (length data)"] buf
      by (simp_all add: F_def)
    show ?thesis
      unfolding s using assms(2,3) o fit [unfolded F_def [symmetric]] b0 b1
      by (simp add: plainRow_value)
  qed
  have "plainLoop data cw dpl (nat ch) (startState ASCII cw ch dpl) = Inr (map (\<lambda>i.
        take_bit (nat cw) (drop_bit (nat (32 - cw - F mod 32)) (data ! nat (F div 32 + int i * dpl))))
       [0..<nat ch])"
    using row by (rule plainLoop_rows)
  then show ?thesis
    using ob by (simp add: assembleCharacter_def Let_def st F_def)
qed

lemma scanline_bit_position:
  assumes "0 \<le> F" "0 \<le> dpl"
  shows "nat (F + int i * (dpl * 32)) = 32 * nat (F div 32 + int i * dpl) + nat (F mod 32)"
proof -
  define q where "q = F div 32 + int i * dpl"
  define r where "r = F mod 32"
  have e: "F + int i * (dpl * 32) = 32 * q + r"
    by (simp add: algebra_simps q_def r_def)
  have q0: "0 \<le> q" using assms by (simp add: pos_imp_zdiv_nonneg_iff q_def)
  have r0: "0 \<le> r" by (simp add: r_def)
  have "nat (32 * q + r) = 32 * nat q + nat r" using q0 r0 by linarith
  then show ?thesis unfolding e q_def r_def .
qed

text \<open>
  C2, amended. For a glyph (a code in [0,127], a width from 1 to 32, positive charHeight
  and dwordsPerLine, the words of its scanlines inside the buffer) such that the bit
  offset of its last scanline, \<open>bitOffset + (charHeight - 1) * dwordsPerLine * 32\<close>,
  fits a signed 32-bit \<^verbatim>\<open>int\<close>, and whose bit range straddles two words
  (\<open>offset + charWidth > 32\<close>), every scanline's row value is
  \<open>(tmp1 << (charWidth - (32 - offset))) | (tmp2 >> (32 - (charWidth - (32 - offset))))\<close>
  with \<open>tmp1\<close> the low \<open>32 - offset\<close> bits of word \<open>dword\<close> and \<open>tmp2\<close> the masked
  high \<open>charWidth - (32 - offset)\<close> bits of word \<open>dword + 1\<close>; bit \<open>j\<close> of the value is
  pixel \<open>charWidth - 1 - j\<close> of the scanline, so the first pixel is the most significant
  of the \<open>charWidth\<close> bits and nothing is set above them.
\<close>

theorem straddling_scanlines:
  assumes "0 \<le> ASCII" "ASCII \<le> 127" "1 \<le> charWidth" "charWidth \<le> 32"
    and "0 < charHeight" "0 < dwordsPerLine"
    and "specBitOffset ASCII charWidth charHeight dwordsPerLine
           + (charHeight - 1) * (dwordsPerLine * 32) < 2 ^ 31"
    and "(specBitOffset ASCII charWidth charHeight dwordsPerLine
           + (charHeight - 1) * (dwordsPerLine * 32)) div 32 + 1 < int (length data)"
    and "32 < specBitOffset ASCII charWidth charHeight dwordsPerLine mod 32 + charWidth"
  shows "\<exists>rows. assembleCharacter data ASCII charWidth charHeight dwordsPerLine = Inr rows
    \<and> length rows = nat charHeight
    \<and> (\<forall>i < nat charHeight.
          (let offset = nat (specBitOffset ASCII charWidth charHeight dwordsPerLine mod 32);
               dword = nat (specBitOffset ASCII charWidth charHeight dwordsPerLine div 32
                            + int i * dwordsPerLine);
               w = nat charWidth;
               tmp1 = take_bit (32 - offset) (data ! dword);
               tmp2 = data ! (dword + 1)
                      AND push_bit (32 - (w - (32 - offset))) (mask (w - (32 - offset)))
           in rows ! i = (push_bit (w - (32 - offset)) tmp1
                          OR drop_bit (32 - (w - (32 - offset))) tmp2))
          \<and> (\<forall>j. bit (rows ! i) j \<longleftrightarrow>
                 j < nat charWidth
                 \<and> pixelAt data
                     (nat (specBitOffset ASCII charWidth charHeight dwordsPerLine
                           + int i * (dwordsPerLine * 32))
                      + (nat charWidth - 1 - j))))"
proof -
  define F where "F = specBitOffset ASCII charWidth charHeight dwordsPerLine"
  define V where "V = (\<lambda>i::nat.
        push_bit (nat charWidth - (32 - nat (F mod 32)))
          (take_bit (32 - nat (F mod 32)) (data ! nat (F div 32 + int i * dwordsPerLine)))
        OR drop_bit (32 - (nat charWidth - (32 - nat (F mod 32))))
             (data ! (nat (F div 32 + int i * dwordsPerLine) + 1)
              AND push_bit (32 - (nat charWidth - (32 - nat (F mod 32))))
                    (mask (nat charWidth - (32 - nat (F mod 32))))))"
  have F0: "0 \<le> F" unfolding F_def using assms by (intro specBitOffset_nonneg) simp_all
  have d0: "0 \<le> F div 32 + int i * dwordsPerLine" for i
    using F0 assms(6) by (simp add: pos_imp_zdiv_nonneg_iff)
  have o: "0 \<le> F mod 32" "F mod 32 < 32" by simp_all
  have "assembleCharacter data ASCII charWidth charHeight dwordsPerLine =
      Inr (map (\<lambda>i.
        push_bit (nat (charWidth - (32 - F mod 32)))
          (take_bit (nat (32 - F mod 32)) (data ! nat (F div 32 + int i * dwordsPerLine)))
        OR drop_bit (nat (32 - (charWidth - (32 - F mod 32))))
             (data ! nat (F div 32 + int i * dwordsPerLine + 1)
              AND push_bit (nat (32 - (charWidth - (32 - F mod 32))))
                    (mask (nat (charWidth - (32 - F mod 32))))))
       [0..<nat charHeight])"
    unfolding F_def using assms(1,3-9) by (rule assembleCharacter_straddle_rows)
  also have "\<dots> = Inr (map V [0..<nat charHeight])"
    unfolding V_def
    using straddle_value_nat [OF assms(3) o assms(9) [folded F_def] d0, of data] by simp
  finally have res: "assembleCharacter data ASCII charWidth charHeight dwordsPerLine
      = Inr (map V [0..<nat charHeight])" .
  have px: "bit (V i) j \<longleftrightarrow>
      j < nat charWidth \<and> pixelAt data (nat (F + int i * (dwordsPerLine * 32)) + (nat charWidth - 1 - j))"
    for i j
  proof -
    have a: "nat (F mod 32) < 32" "nat charWidth \<le> 32" "32 < nat (F mod 32) + nat charWidth"
      using o assms(3,4,9) by (simp_all add: F_def)
    have p: "nat (F + int i * (dwordsPerLine * 32))
        = 32 * nat (F div 32 + int i * dwordsPerLine) + nat (F mod 32)"
      using F0 assms(6) by (intro scanline_bit_position) simp_all
    show ?thesis
      unfolding V_def p by (rule straddle_value_pixels [OF a])
  qed
  have "\<forall>i < nat charHeight.
          (let offset = nat (F mod 32);
               dword = nat (F div 32 + int i * dwordsPerLine);
               w = nat charWidth;
               tmp1 = take_bit (32 - offset) (data ! dword);
               tmp2 = data ! (dword + 1)
                      AND push_bit (32 - (w - (32 - offset))) (mask (w - (32 - offset)))
           in map V [0..<nat charHeight] ! i = (push_bit (w - (32 - offset)) tmp1
                          OR drop_bit (32 - (w - (32 - offset))) tmp2))
          \<and> (\<forall>j. bit (map V [0..<nat charHeight] ! i) j \<longleftrightarrow>
                 j < nat charWidth
                 \<and> pixelAt data (nat (F + int i * (dwordsPerLine * 32)) + (nat charWidth - 1 - j)))"
    using px by (simp add: Let_def V_def)
  then show ?thesis using res unfolding F_def by (intro exI [of _ "map V [0..<nat charHeight]"]) simp
qed

theorem straddling_scanlines_witness:
  "\<exists>rows. assembleCharacter [3, 0x80000000, 0, 0, 0, 0, 2, 0xC0000000, 0, 0, 0, 0,
                                 0, 0, 0, 0, 0, 0, 0, 0, 0, 0, 0, 0] 10 3 2 6 = Inr rows
     \<and> length rows = 2 \<and> rows ! 0 = 7 \<and> rows ! 1 = 5
     \<and> (bit (rows ! 1) 0 \<longleftrightarrow>
          pixelAt [3, 0x80000000, 0, 0, 0, 0, 2, 0xC0000000, 0, 0, 0, 0,
                   0, 0, 0, 0, 0, 0, 0, 0, 0, 0, 0, 0] 224)"
proof -
  let ?D = "[3, 0x80000000, 0, 0, 0, 0, 2, 0xC0000000, 0, 0, 0, 0,
             0, 0, 0, 0, 0, 0, 0, 0, 0, 0, 0, 0] :: uint32 list"
  have F: "specBitOffset 10 3 2 6 = 30" by (simp add: specBitOffset_def)
  have h: "(0::int) \<le> 10" "(10::int) \<le> 127" "(1::int) \<le> 3" "(3::int) \<le> 32"
    "(0::int) < 2" "(0::int) < 6" by simp_all
  have r: "specBitOffset 10 3 2 6 + (2 - 1) * (6 * 32) < 2 ^ 31" by (simp add: F)
  have b: "(specBitOffset 10 3 2 6 + (2 - 1) * (6 * 32)) div 32 + 1 < int (length ?D)"
    by (simp add: F)
  have st: "32 < specBitOffset 10 3 2 6 mod 32 + 3" by (simp add: F)
  obtain rows where res: "assembleCharacter ?D 10 3 2 6 = Inr rows"
    and len: "length rows = nat 2"
    and all: "\<forall>i < nat 2.
          (let offset = nat (specBitOffset 10 3 2 6 mod 32);
               dword = nat (specBitOffset 10 3 2 6 div 32 + int i * 6);
               w = nat 3;
               tmp1 = take_bit (32 - offset) (?D ! dword);
               tmp2 = ?D ! (dword + 1)
                      AND push_bit (32 - (w - (32 - offset))) (mask (w - (32 - offset)))
           in rows ! i = (push_bit (w - (32 - offset)) tmp1
                          OR drop_bit (32 - (w - (32 - offset))) tmp2))
          \<and> (\<forall>j. bit (rows ! i) j \<longleftrightarrow>
                 j < nat 3
                 \<and> pixelAt ?D (nat (specBitOffset 10 3 2 6 + int i * (6 * 32)) + (nat 3 - 1 - j)))"
    using straddling_scanlines [OF h r b st] by blast
  have r0: "rows ! 0 = 7"
    using all [THEN spec, of 0] by (simp add: F Let_def mask_eq_exp_minus_1)
  have r1: "rows ! 1 = 5"
    using all [THEN spec, of 1] by (simp add: F Let_def mask_eq_exp_minus_1)
  have i1: "(1::nat) < nat 2" by simp
  have p: "bit (rows ! 1) 0 \<longleftrightarrow> pixelAt ?D 224"
    using all [THEN spec, of 1, THEN mp, OF i1, THEN conjunct2, THEN spec, of 0]
    by (simp add: F)
  show ?thesis using res len r0 r1 p by simp
qed

text \<open>
  A scanline of the straddling loop that faults leaves the call without rows.
\<close>

lemma straddleLoop_fault:
  "i < n \<Longrightarrow>
   straddleRow data cw (fst (snd ((advance dpl ^^ i) st))) (snd (snd ((advance dpl ^^ i) st))) = Inl f
   \<Longrightarrow> \<exists>g. straddleLoop data cw dpl n st = Inl g"
proof (induction n arbitrary: i st)
  case 0
  then show ?case by simp
next
  case (Suc n)
  show ?case
  proof (cases i)
    case 0
    then show ?thesis using Suc.prems(2) by simp
  next
    case (Suc k)
    have k: "k < n" using Suc.prems(1) Suc by simp
    have "straddleRow data cw (fst (snd ((advance dpl ^^ k) (advance dpl st))))
        (snd (snd ((advance dpl ^^ k) (advance dpl st)))) = Inl f"
      using Suc.prems(2) unfolding Suc by (simp add: funpow_swap1)
    from Suc.IH [OF k this] obtain g where "straddleLoop data cw dpl n (advance dpl st) = Inl g" ..
    then show ?thesis by (simp split: sum.splits)
  qed
qed

lemma straddleRow_negative_offset: "straddleRow data 3 d (- 2) = Inl ShiftCount"
  by (simp add: straddleRow_def shl_int_def isub_def wrap32_def thenE_def)

lemma tall_glyph_faults: "\<exists>f. assembleCharacter data 74 3 8388608 6 = Inl f"
proof -
  have ob: "onBoundary 30 3" by (simp add: onBoundary_def iadd_def wrap32_def)
  have i: "(2796203::nat) < nat 8388608" by simp
  have r: "straddleRow data 3
      (fst (snd ((advance 6 ^^ 2796203) (startState 74 3 8388608 6))))
      (snd (snd ((advance 6 ^^ 2796203) (startState 74 3 8388608 6)))) = Inl ShiftCount"
    by (simp only: tall_wrapped fst_conv snd_conv straddleRow_negative_offset)
  from straddleLoop_fault [OF i r] obtain g
    where "straddleLoop data 3 6 (nat 8388608) (startState 74 3 8388608 6) = Inl g" ..
  then show ?thesis
    unfolding assembleCharacter_def Let_def using ob by (simp add: tall_start)
qed

text \<open>
  C2 as written, for every straddling glyph, fails on the sheet of 192 by 16777216 pixels
  (charWidth 3, charHeight 8388608, dwordsPerLine 6): the glyph of code 74 straddles two
  words (offset 30, width 3) and the buffer of 100663296 words holds both words of every
  one of its scanlines, but the bit offset leaves the range of \<^verbatim>\<open>int\<close> at scanline 2796203,
  the shift of line 72 gets the count \<open>32 - (- 2)\<close>, and the call produces no row values.
\<close>

theorem straddling_overflow_counterexample:
  "(\<exists>f. assembleCharacter (replicate 100663296 0) 74 3 8388608 6 = Inl f)
   \<and> 32 < specBitOffset 74 3 8388608 6 mod 32 + 3
   \<and> (specBitOffset 74 3 8388608 6 + (8388608 - 1) * (6 * 32)) div 32 + 1
       < int (length (replicate 100663296 (0::uint32)))"
  using tall_glyph_faults [of "replicate 100663296 0"]
  by (simp add: specBitOffset_def)

section \<open>Glyphs of width 32\<close>

lemma plainRow_width_32: "plainRow data 32 dword offset = Inl ShiftCount"
  by (simp add: plainRow_def shl_int_def thenE_def)

text \<open>
  C4, at a glyph of width 32, the widest the program's header allows. On the sheet of
  2048 by 2 pixels with every pixel set (charWidth 32, charHeight 1, dwordsPerLine 64)
  the scanline of code 0 lies in word 0 at offset 0, and the claim's value is that word
  shifted by 0 and masked to its low 32 bits, \<open>0xFFFFFFFF\<close>. Line 60 computes the mask
  as \<^verbatim>\<open>(1 << 32) - 1\<close>, a shift by the width of \<^verbatim>\<open>int\<close>, and no row value comes out.
\<close>

theorem single_word_width_32_fault:
  "assembleCharacter (replicate 128 0xFFFFFFFF) 0 32 1 64 = Inl ShiftCount"
  by (simp add: assembleCharacter_def startState_def firstBits_def iadd_def imul_def imod_def
      idiv_def wrap32_def onBoundary_def plainRow_width_32 Let_def)

lemma assembleCharacter_width_32:
  assumes "0 \<le> ASCII" "ASCII \<le> 127" "0 < ch" "ch < 1048576"
  shows "assembleCharacter data ASCII 32 ch 64 = Inl ShiftCount"
proof -
  have F0: "0 \<le> specBitOffset ASCII 32 ch 64" using assms by (intro specBitOffset_nonneg) simp_all
  have c: "ASCII mod 64 \<le> 63" using pos_mod_bound [of 64 ASCII] by simp
  have Flt: "specBitOffset ASCII 32 ch 64 < 2 ^ 31"
    using assms c by (simp add: specBitOffset_def)
  have st: "startState ASCII 32 ch 64 =
     (specBitOffset ASCII 32 ch 64, specBitOffset ASCII 32 ch 64 div 32, specBitOffset ASCII 32 ch 64 mod 32)"
    using assms Flt by (intro startState_exact) simp_all
  have m: "specBitOffset ASCII 32 ch 64 mod 32 = 0"
    by (simp add: specBitOffset_def)
  have nb: "\<not> onBoundary 0 32" by (simp add: onBoundary_def iadd_def wrap32_def)
  obtain n where n: "nat ch = Suc n" using assms(3) by (cases "nat ch") simp_all
  show ?thesis
    unfolding assembleCharacter_def st Let_def by (simp add: m nb n plainRow_width_32)
qed

section \<open>Single-word scanlines and the pixels of a glyph\<close>

text \<open>
  Up to width 31 the single-word scanlines are what C4 says: the word shifted right by
  \<open>32 - charWidth - offset\<close> and masked to its low \<open>charWidth\<close> bits, bit \<open>j\<close> of the
  value being pixel \<open>charWidth - 1 - j\<close> of the scanline.
\<close>

lemma single_word_scanlines:
  assumes "0 \<le> ASCII" "ASCII \<le> 127" "1 \<le> charWidth" "charWidth \<le> 31"
    and "0 < charHeight" "0 < dwordsPerLine"
    and "specBitOffset ASCII charWidth charHeight dwordsPerLine
           + (charHeight - 1) * (dwordsPerLine * 32) < 2 ^ 31"
    and "(specBitOffset ASCII charWidth charHeight dwordsPerLine
           + (charHeight - 1) * (dwordsPerLine * 32)) div 32 < int (length data)"
    and "specBitOffset ASCII charWidth charHeight dwordsPerLine mod 32 + charWidth \<le> 32"
  shows "\<exists>rows. assembleCharacter data ASCII charWidth charHeight dwordsPerLine = Inr rows
    \<and> length rows = nat charHeight
    \<and> (\<forall>i < nat charHeight.
          (let offset = nat (specBitOffset ASCII charWidth charHeight dwordsPerLine mod 32);
               dword = nat (specBitOffset ASCII charWidth charHeight dwordsPerLine div 32
                            + int i * dwordsPerLine);
               w = nat charWidth
           in rows ! i = take_bit w (drop_bit (32 - w - offset) (data ! dword)))
          \<and> (\<forall>j. bit (rows ! i) j \<longleftrightarrow>
                 j < nat charWidth
                 \<and> pixelAt data
                     (nat (specBitOffset ASCII charWidth charHeight dwordsPerLine
                           + int i * (dwordsPerLine * 32))
                      + (nat charWidth - 1 - j))))"
proof -
  define F where "F = specBitOffset ASCII charWidth charHeight dwordsPerLine"
  define V where "V = (\<lambda>i::nat.
        take_bit (nat charWidth) (drop_bit (32 - nat charWidth - nat (F mod 32))
           (data ! nat (F div 32 + int i * dwordsPerLine))))"
  have F0: "0 \<le> F" unfolding F_def using assms by (intro specBitOffset_nonneg) simp_all
  have o: "0 \<le> F mod 32" "F mod 32 < 32" by simp_all
  have fit: "F mod 32 + charWidth \<le> 32" using assms(9) by (simp add: F_def)
  have "assembleCharacter data ASCII charWidth charHeight dwordsPerLine =
      Inr (map (\<lambda>i. take_bit (nat charWidth)
                 (drop_bit (nat (32 - charWidth - F mod 32)) (data ! nat (F div 32 + int i * dwordsPerLine))))
       [0..<nat charHeight])"
    unfolding F_def using assms(1,3-9) by (rule assembleCharacter_plain_rows)
  also have "\<dots> = Inr (map V [0..<nat charHeight])"
    unfolding V_def plain_value_nat [OF assms(3) o(1) fit] ..
  finally have res: "assembleCharacter data ASCII charWidth charHeight dwordsPerLine
      = Inr (map V [0..<nat charHeight])" .
  have p: "nat (F + int i * (dwordsPerLine * 32))
        = 32 * nat (F div 32 + int i * dwordsPerLine) + nat (F mod 32)" for i
  proof (rule scanline_bit_position)
    show "0 \<le> F" by (rule F0)
    show "0 \<le> dwordsPerLine" using assms(6) by simp
  qed
  have a: "nat (F mod 32) + nat charWidth \<le> 32" using o assms(3) fit by simp
  have px: "bit (V i) j \<longleftrightarrow>
      j < nat charWidth \<and> pixelAt data (nat (F + int i * (dwordsPerLine * 32)) + (nat charWidth - 1 - j))"
    for i j
    unfolding V_def p by (rule plain_value_pixels [OF a])
  have "\<forall>i < nat charHeight.
          (let offset = nat (F mod 32);
               dword = nat (F div 32 + int i * dwordsPerLine);
               w = nat charWidth
           in map V [0..<nat charHeight] ! i = take_bit w (drop_bit (32 - w - offset) (data ! dword)))
          \<and> (\<forall>j. bit (map V [0..<nat charHeight] ! i) j \<longleftrightarrow>
                 j < nat charWidth
                 \<and> pixelAt data (nat (F + int i * (dwordsPerLine * 32)) + (nat charWidth - 1 - j)))"
    using px by (simp add: Let_def V_def)
  then show ?thesis using res unfolding F_def by (intro exI [of _ "map V [0..<nat charHeight]"]) simp
qed

lemma last_word_plain:
  fixes T :: int
  assumes "1 \<le> cw" "T mod 32 + cw \<le> 32"
  shows "(T + cw - 1) div 32 = T div 32"
proof -
  define r where "r = T mod 32 + cw - 1"
  have r: "0 \<le> r" "r < 32" using assms by (simp_all add: r_def)
  have "T + cw - 1 = T div 32 * 32 + r" by (simp add: r_def)
  then have "(T + cw - 1) div 32 = (T div 32 * 32 + r) div 32" by simp
  also have "\<dots> = T div 32" using r by simp
  finally show ?thesis .
qed

lemma last_word_straddle:
  fixes T :: int
  assumes "cw \<le> 32" "32 < T mod 32 + cw"
  shows "(T + cw - 1) div 32 = T div 32 + 1"
proof -
  define r where "r = T mod 32 + cw - 1 - 32"
  have r: "0 \<le> r" "r < 32" using assms by (simp_all add: r_def)
  have "T + cw - 1 = (T div 32 + 1) * 32 + r" by (simp add: r_def algebra_simps)
  then have "(T + cw - 1) div 32 = ((T div 32 + 1) * 32 + r) div 32" by simp
  also have "\<dots> = T div 32 + 1" using r by (simp del: distrib_right distrib_left add: div_pos_pos_trivial)
  finally show ?thesis .
qed

lemma scanline_same_offset:
  fixes F :: int
  shows "(F + k * (dpl * 32)) mod 32 = F mod 32"
proof -
  have e: "F + k * (dpl * 32) = F + (k * dpl) * 32" by simp
  show ?thesis unfolding e by (rule mod_mult_self1)
qed

lemma assembleCharacter_pixels:
  assumes "0 \<le> ASCII" "1 \<le> cw" "cw \<le> 31" "0 < ch" "0 < dpl"
    and rng: "specBitOffset ASCII cw ch dpl + (ch - 1) * (dpl * 32) < 2 ^ 31"
    and buf: "(specBitOffset ASCII cw ch dpl + (ch - 1) * (dpl * 32) + cw - 1) div 32
                < int (length data)"
  shows "\<exists>rows. assembleCharacter data ASCII cw ch dpl = Inr rows \<and> length rows = nat ch
    \<and> (\<forall>i < nat ch. \<forall>j. bit (rows ! i) j \<longleftrightarrow>
           j < nat cw
           \<and> pixelAt data (nat (specBitOffset ASCII cw ch dpl + int i * (dpl * 32)) + (nat cw - 1 - j)))"
proof -
  define F where "F = specBitOffset ASCII cw ch dpl"
  define T where "T = F + (ch - 1) * (dpl * 32)"
  have F0: "0 \<le> F" unfolding F_def using assms by (intro specBitOffset_nonneg) simp_all
  have o: "0 \<le> F mod 32" "F mod 32 < 32" by simp_all
  have Tm: "T mod 32 = F mod 32" unfolding T_def by (rule scanline_same_offset)
  have p: "nat (F + int i * (dpl * 32)) = 32 * nat (F div 32 + int i * dpl) + nat (F mod 32)" for i
  proof (rule scanline_bit_position)
    show "0 \<le> F" by (rule F0)
    show "0 \<le> dpl" using assms(5) by simp
  qed
  show ?thesis
  proof (cases "32 < F mod 32 + cw")
    case True
    have "(T + cw - 1) div 32 = T div 32 + 1"
      using assms(3) True Tm by (intro last_word_straddle) simp_all
    then have b: "(specBitOffset ASCII cw ch dpl + (ch - 1) * (dpl * 32)) div 32 + 1 < int (length data)"
      using buf by (simp add: T_def F_def)
    have c32: "cw \<le> 32" using assms(3) by simp
    define V where "V = (\<lambda>i::nat.
        push_bit (nat cw - (32 - nat (F mod 32)))
          (take_bit (32 - nat (F mod 32)) (data ! nat (F div 32 + int i * dpl)))
        OR drop_bit (32 - (nat cw - (32 - nat (F mod 32))))
             (data ! (nat (F div 32 + int i * dpl) + 1)
              AND push_bit (32 - (nat cw - (32 - nat (F mod 32))))
                    (mask (nat cw - (32 - nat (F mod 32))))))"
    have d0: "0 \<le> F div 32 + int i * dpl" for i
      using F0 assms(5) by (simp add: pos_imp_zdiv_nonneg_iff)
    have "assembleCharacter data ASCII cw ch dpl =
      Inr (map (\<lambda>i.
        push_bit (nat (cw - (32 - F mod 32)))
          (take_bit (nat (32 - F mod 32)) (data ! nat (F div 32 + int i * dpl)))
        OR drop_bit (nat (32 - (cw - (32 - F mod 32))))
             (data ! nat (F div 32 + int i * dpl + 1)
              AND push_bit (nat (32 - (cw - (32 - F mod 32))))
                    (mask (nat (cw - (32 - F mod 32))))))
       [0..<nat ch])"
      unfolding F_def using assms(1,2) c32 assms(4,5) rng b True [unfolded F_def]
      by (rule assembleCharacter_straddle_rows)
    also have "\<dots> = Inr (map V [0..<nat ch])"
      unfolding V_def
      using straddle_value_nat [OF assms(2) o True d0, of data] by simp
    finally have res: "assembleCharacter data ASCII cw ch dpl = Inr (map V [0..<nat ch])" .
    have a: "nat (F mod 32) < 32" "nat cw \<le> 32" "32 < nat (F mod 32) + nat cw"
      using o assms(2,3) True by simp_all
    have px: "bit (V i) j \<longleftrightarrow>
        j < nat cw \<and> pixelAt data (nat (F + int i * (dpl * 32)) + (nat cw - 1 - j))" for i j
      unfolding V_def p by (rule straddle_value_pixels [OF a])
    show ?thesis
      using res px unfolding F_def by (intro exI [of _ "map V [0..<nat ch]"]) simp
  next
    case False
    then have fit: "F mod 32 + cw \<le> 32" by simp
    have "(T + cw - 1) div 32 = T div 32"
      using assms(2) fit Tm by (intro last_word_plain) simp_all
    then have b: "(specBitOffset ASCII cw ch dpl + (ch - 1) * (dpl * 32)) div 32 < int (length data)"
      using buf by (simp add: T_def F_def)
    define V where "V = (\<lambda>i::nat.
        take_bit (nat cw) (drop_bit (32 - nat cw - nat (F mod 32)) (data ! nat (F div 32 + int i * dpl))))"
    have "assembleCharacter data ASCII cw ch dpl =
      Inr (map (\<lambda>i. take_bit (nat cw)
                 (drop_bit (nat (32 - cw - F mod 32)) (data ! nat (F div 32 + int i * dpl))))
       [0..<nat ch])"
      unfolding F_def using assms(1-5) rng b fit [unfolded F_def]
      by (rule assembleCharacter_plain_rows)
    also have "\<dots> = Inr (map V [0..<nat ch])"
      unfolding V_def plain_value_nat [OF assms(2) o(1) fit] ..
    finally have res: "assembleCharacter data ASCII cw ch dpl = Inr (map V [0..<nat ch])" .
    have a: "nat (F mod 32) + nat cw \<le> 32" using o assms(2) fit by simp
    have px: "bit (V i) j \<longleftrightarrow>
        j < nat cw \<and> pixelAt data (nat (F + int i * (dpl * 32)) + (nat cw - 1 - j))" for i j
      unfolding V_def p by (rule plain_value_pixels [OF a])
    show ?thesis
      using res px unfolding F_def by (intro exI [of _ "map V [0..<nat ch]"]) simp
  qed
qed

section \<open>The synthetic sheet and the round trip\<close>

lemma concat_rows_nth:
  assumes "r < n" "j < m"
  shows "concat (map (\<lambda>r. map (f r) [0..<m]) [0..<n]) ! (r * m + j) = f r j"
  using assms
proof (induction n)
  case 0
  then show ?case by simp
next
  case (Suc n)
  have len: "length (concat (map (\<lambda>r. map (f r) [0..<m]) [0..<n])) = n * m"
    by (induction n) simp_all
  show ?case
  proof (cases "r < n")
    case True
    have "r * m + j < n * m"
    proof -
      have "r * m + j < r * m + m" using Suc.prems(2) by simp
      also have "\<dots> = (Suc r) * m" by simp
      also have "\<dots> \<le> n * m" using True by (intro mult_le_mono1) simp
      finally show ?thesis .
    qed
    then show ?thesis using Suc True len by (simp add: nth_append)
  next
    case False
    then have "r = n" using Suc.prems(1) by simp
    then show ?thesis using Suc.prems(2) len by (simp add: nth_append)
  qed
qed

lemma concat_rows_length:
  "length (concat (map (\<lambda>r. map (f r) [0..<m]) [0..<n])) = n * m"
  by (induction n) simp_all

lemma length_sheetBuffer: "length (sheetBuffer pat w h) = 2 * h * (2 * w)"
  unfolding sheetBuffer_def by (rule concat_rows_length)

lemma sheetBuffer_nth:
  "r < 2 * h \<Longrightarrow> j < 2 * w \<Longrightarrow> sheetBuffer pat w h ! (r * (2 * w) + j) = sheetWord pat w h r j"
  unfolding sheetBuffer_def by (rule concat_rows_nth)

lemma bit_sheetWord:
  assumes "t < 32"
  shows "bit (sheetWord pat w h r j) (31 - t) = sheetPixel pat w h r (32 * j + t)"
proof -
  define bs where "bs = map (\<lambda>n. sheetPixel pat w h r (32 * j + (31 - n))) [0..<32]"
  have n: "31 - t < 32 - 0" by simp
  have e: "31 - (0 + (31 - t)) = t" using assms by simp
  have v: "bs ! (31 - t) = sheetPixel pat w h r (32 * j + t)"
    unfolding bs_def nth_map_upt [OF n] e ..
  have l: "length bs = 32" by (simp add: bs_def)
  have "bit (horner_sum of_bool 2 bs :: uint32) (31 - t) \<longleftrightarrow> bs ! (31 - t)"
    using n by (simp add: bit_horner_sum_bit_word_iff l)
  then show ?thesis unfolding sheetWord_def bs_def [symmetric] v .
qed

lemma div_mod_32_plus:
  fixes q x :: nat
  shows "(32 * q + x) div 32 = q + x div 32" "(32 * q + x) mod 32 = x mod 32"
  by simp_all

lemma pixelAt_sheetBuffer:
  assumes "0 < w" "p < 2 * h * (64 * w)"
  shows "pixelAt (sheetBuffer pat w h) p = sheetPixel pat w h (p div (64 * w)) (p mod (64 * w))"
proof -
  define r where "r = p div (64 * w)"
  define x where "x = p mod (64 * w)"
  define j where "j = x div 32"
  define t where "t = x mod 32"
  have "p = (64 * w) * r + x" unfolding r_def x_def by simp
  then have p: "p = 32 * (r * (2 * w)) + x" by (simp add: algebra_simps)
  have x: "x = 32 * j + t" by (simp add: j_def t_def)
  have t: "t < 32" by (simp add: t_def)
  have xl: "x < 64 * w" using assms(1) by (simp add: x_def)
  have j: "j < 2 * w" using xl by (simp add: j_def less_mult_imp_div_less algebra_simps)
  have r: "r < 2 * h" using assms(2) by (simp add: r_def less_mult_imp_div_less algebra_simps)
  have pd: "p div 32 = r * (2 * w) + j"
    unfolding j_def by (subst p) (rule div_mod_32_plus)
  have pm: "p mod 32 = t"
    unfolding t_def by (subst p) (rule div_mod_32_plus)
  have "pixelAt (sheetBuffer pat w h) p = bit (sheetWord pat w h r j) (31 - t)"
    unfolding pixelAt_def pd pm using sheetBuffer_nth [OF r j] by simp
  also have "\<dots> = sheetPixel pat w h r (32 * j + t)" using t by (rule bit_sheetWord)
  finally show ?thesis unfolding x [symmetric] r_def x_def .
qed

lemma sheetPixel_glyph:
  assumes "c < 64" "i < h" "t < w"
  shows "sheetPixel pat w h (b * h + i) (c * w + t)
     = bit (pat (c + (if b = 0 then 0 else 64)) i) (w - 1 - t)"
proof -
  have d: "(c * w + t) div w = c" using assms(3) by simp
  have m: "(c * w + t) mod w = t" using assms(3) by simp
  have rm: "(b * h + i) mod h = i" using assms(2) by simp
  have rl: "b * h + i < h \<longleftrightarrow> b = 0" using assms(2) by (cases b) simp_all
  show ?thesis unfolding sheetPixel_def d m rm rl ..
qed

lemma specBitOffset_of_nat:
  "specBitOffset (int code) (int w) (int h) (int (2 * w))
     = int ((code div 64) * h * (64 * w) + (code mod 64) * w)" if "code < 128"
proof (cases "code < 64")
  case True
  then show ?thesis by (simp add: specBitOffset_def)
next
  case False
  then have d: "code div 64 = 1" using that by simp
  have "int code mod 64 = int (code mod 64)" by (simp add: zmod_int)
  then show ?thesis using False d by (simp add: specBitOffset_def algebra_simps)
qed

lemma glyph_pixel_position:
  fixes b h i w c t :: nat
  assumes "c < 64" "t < w"
  shows "(b * h * (64 * w) + c * w + i * (2 * w * 32) + t) div (64 * w) = b * h + i"
    and "(b * h * (64 * w) + c * w + i * (2 * w * 32) + t) mod (64 * w) = c * w + t"
proof -
  have lt: "c * w + t < 64 * w"
  proof -
    have "c * w + t < c * w + w" using assms(2) by simp
    also have "\<dots> = (Suc c) * w" by simp
    also have "\<dots> \<le> 64 * w" using assms(1) by (intro mult_le_mono1) simp
    finally show ?thesis .
  qed
  have e: "b * h * (64 * w) + c * w + i * (2 * w * 32) + t = (64 * w) * (b * h + i) + (c * w + t)"
    by (simp add: algebra_simps)
  show "(b * h * (64 * w) + c * w + i * (2 * w * 32) + t) div (64 * w) = b * h + i"
    unfolding e using lt by simp
  show "(b * h * (64 * w) + c * w + i * (2 * w * 32) + t) mod (64 * w) = c * w + t"
    unfolding e using lt by simp
qed

text \<open>
  Up to width 31 the round trip of C3 holds: on the synthetic sheet, assembleCharacter
  gives back, for every code and scanline, the pattern of the glyph cell, in the
  single-word path and in the straddling one.
\<close>

lemma sheet_round_trip:
  assumes "code < 128" "1 \<le> w" "w \<le> 31" "1 \<le> h" "128 * h * w < 2 ^ 31"
  shows "assembleCharacter (sheetBuffer pat w h) (int code) (int w) (int h) (int (2 * w))
     = Inr (map (\<lambda>line. take_bit w (pat code line)) [0..<h])"
proof -
  define b where "b = code div 64"
  define c where "c = code mod 64"
  define Fn where "Fn = b * h * (64 * w) + c * w"
  have c: "c < 64" by (simp add: c_def)
  have b: "b \<le> 1" using assms(1) by (simp add: b_def)
  have dm: "code = 64 * b + c" unfolding b_def c_def by simp
  have code: "c + (if b = 0 then 0 else 64) = code"
  proof (cases "b = 0")
    case True
    then show ?thesis using dm by simp
  next
    case False
    then have "b = 1" using b by simp
    then show ?thesis using dm by simp
  qed
  have F: "specBitOffset (int code) (int w) (int h) (int (2 * w)) = int Fn"
    unfolding Fn_def b_def c_def using assms(1) by (rule specBitOffset_of_nat)
  have hw: "h * w \<ge> 1" using assms(2,4) by (simp add: Suc_le_eq)
  have bh: "b * h * (64 * w) \<le> 64 * (h * w)" using b by (cases "b = 0") simp_all
  have cw: "c * w \<le> 63 * w" using c by simp
  have w_le: "w \<le> h * w" using assms(4) by simp
  have ih: "(h - 1) * (2 * w * 32) + 64 * w = 64 * (h * w)"
    using assms(4) by (simp add: algebra_simps diff_mult_distrib)
  have last: "Fn + (h - 1) * (2 * w * 32) + w \<le> 128 * (h * w)"
    unfolding Fn_def using bh cw ih by linarith
  have rng: "int Fn + (int h - 1) * (int (2 * w) * 32) < 2 ^ 31"
  proof -
    have "Fn + (h - 1) * (2 * w * 32) < 2 ^ 31" using last assms(5,2) by simp
    then have "int (Fn + (h - 1) * (2 * w * 32)) < 2 ^ 31" by (simp only: of_nat_less_numeral_power_cancel_iff)
    then show ?thesis using assms(4) by (simp add: of_nat_diff)
  qed
  have buf: "(int Fn + (int h - 1) * (int (2 * w) * 32) + int w - 1) div 32
      < int (length (sheetBuffer pat w h))"
  proof -
    have "Fn + (h - 1) * (2 * w * 32) + w - 1 < 32 * (2 * h * (2 * w))"
      using last assms(2) hw by simp
    then have "(Fn + (h - 1) * (2 * w * 32) + w - 1) div 32 < 2 * h * (2 * w)"
      by (simp add: less_mult_imp_div_less algebra_simps)
    then have "int ((Fn + (h - 1) * (2 * w * 32) + w - 1) div 32) < int (2 * h * (2 * w))"
      by (simp only: of_nat_less_iff)
    moreover have "int (Fn + (h - 1) * (2 * w * 32) + w - 1)
        = int Fn + (int h - 1) * (int (2 * w) * 32) + int w - 1"
      using assms(2,4) by (simp add: of_nat_diff)
    ultimately show ?thesis by (simp add: length_sheetBuffer zdiv_int)
  qed
  obtain rows where res: "assembleCharacter (sheetBuffer pat w h) (int code) (int w) (int h) (int (2 * w)) = Inr rows"
    and len: "length rows = nat (int h)"
    and px: "\<And>i j. i < nat (int h) \<Longrightarrow> bit (rows ! i) j \<longleftrightarrow>
           j < nat (int w)
           \<and> pixelAt (sheetBuffer pat w h)
               (nat (specBitOffset (int code) (int w) (int h) (int (2 * w)) + int i * (int (2 * w) * 32))
                + (nat (int w) - 1 - j))"
    using assembleCharacter_pixels [of "int code" "int w" "int h" "int (2 * w)" "sheetBuffer pat w h"]
      assms(2,3,4) rng buf unfolding F by auto
  have "rows = map (\<lambda>line. take_bit w (pat code line)) [0..<h]"
  proof (rule nth_equalityI)
    show "length rows = length (map (\<lambda>line. take_bit w (pat code line)) [0..<h])"
      using len by simp
  next
    fix i assume "i < length rows"
    then have i: "i < h" using len by simp
    have "rows ! i = take_bit w (pat code i)"
    proof (rule bit_eqI)
      fix j
      show "bit (rows ! i) j \<longleftrightarrow> bit (take_bit w (pat code i)) j"
      proof (cases "j < w")
        case False
        then show ?thesis using px [of i j] i by (simp add: bit_simps)
      next
        case True
        define t where "t = w - 1 - j"
        have t: "t < w" "w - 1 - t = j" using True by (simp_all add: t_def)
        have pos: "nat (int Fn + int i * (int (2 * w) * 32)) + t
            = b * h * (64 * w) + c * w + i * (2 * w * 32) + t"
          by (simp add: Fn_def nat_add_distrib nat_mult_distrib)
        have lt: "b * h * (64 * w) + c * w + i * (2 * w * 32) + t < 2 * h * (64 * w)"
        proof -
          have "i * (2 * w * 32) \<le> (h - 1) * (2 * w * 32)" using i by (intro mult_le_mono1) simp
          then have "Fn + i * (2 * w * 32) + t < 128 * (h * w)" using last t(1) by linarith
          then show ?thesis by (simp add: Fn_def algebra_simps)
        qed
        have w0: "0 < w" using assms(2) by simp
        have "pixelAt (sheetBuffer pat w h) (b * h * (64 * w) + c * w + i * (2 * w * 32) + t)
            = sheetPixel pat w h (b * h + i) (c * w + t)"
          unfolding pixelAt_sheetBuffer [OF w0 lt] glyph_pixel_position [OF c t(1)] ..
        also have "\<dots> = bit (pat code i) j"
          unfolding sheetPixel_glyph [OF c i t(1)] code t(2) ..
        finally have "pixelAt (sheetBuffer pat w h) (nat (int Fn + int i * (int (2 * w) * 32)) + t)
            = bit (pat code i) j" unfolding pos .
        then show ?thesis using px [of i j] i True unfolding F by (simp add: bit_simps t_def)
      qed
    qed
    then show "rows ! i = map (\<lambda>line. take_bit w (pat code line)) [0..<h] ! i"
      using i by simp
  qed
  then show ?thesis using res by simp
qed

text \<open>
  C3, at width 32, which the claim's geometry and the program's header both allow. On
  the synthetic sheet with charWidth 32, charHeight 1 and dwordsPerLine 64 whose cell
  \<open>code\<close> holds the pattern \<open>code\<close>, extraction of code 65 should give back the one row
  65; the mask \<^verbatim>\<open>(1 << 32) - 1\<close> of line 60 has no value and no row comes out.
\<close>

theorem round_trip_width_32_fault:
  "assembleCharacter (sheetBuffer (\<lambda>code line. of_nat code) 32 1) 65 32 1 64 = Inl ShiftCount"
  by (rule assembleCharacter_width_32) simp_all

section \<open>The exit paths of main\<close>



section \<open>What is written to font.bin\<close>

lemma binaryDigits_Suc:
  "binaryDigits (Suc i) n = (if bit n i then CHR ''1'' else CHR ''0'') # binaryDigits i n"
proof -
  have "map (\<lambda>j. if bit n (Suc i - 1 - j) then CHR ''1'' else CHR ''0'') [0..<Suc i]
      = (if bit n i then CHR ''1'' else CHR ''0'')
        # map ((\<lambda>j. if bit n (Suc i - 1 - j) then CHR ''1'' else CHR ''0'') \<circ> Suc) [0..<i]"
    by (simp add: upt_conv_Cons map_Suc_upt [symmetric] del: upt_Suc)
  then show ?thesis by (simp add: binaryDigits_def comp_def)
qed

lemma digit_of_bit: "digit (drop_bit i n AND 1) = (if bit n i then CHR ''1'' else CHR ''0'')"
proof -
  have "drop_bit i n AND 1 = of_bool (bit n i)"
    by (simp add: and_one_eq bit_iff_odd_drop_bit mod_2_eq_odd)
  then show ?thesis by (simp add: digit_def)
qed

lemma toBinaryLoop_Inr:
  "toBinaryLoop n k = Inr s \<Longrightarrow> s = binaryDigits k n"
proof (induction k arbitrary: s)
  case 0
  then show ?case by (simp add: binaryDigits_def)
next
  case (Suc i)
  from Suc.prems obtain v t where v: "shr_u32 n (int i) = Inr v"
    and t: "toBinaryLoop n i = Inr t" and s: "s = digit (v AND 1) # t"
    by (auto split: sum.splits)
  have "v = drop_bit i n" using v by (auto simp add: shr_u32_def split: if_splits)
  then show ?case using Suc.IH [OF t] s by (simp add: binaryDigits_Suc digit_of_bit)
qed

lemma toBinary_Inr:
  assumes "toBinary n width = Inr s" "- (2 ^ 31) < width" "width < 2 ^ 31"
  shows "s = binaryDigits (nat width) n @ [newline]"
proof -
  have "isub width 1 = width - 1" unfolding isub_def using assms(2,3) by (intro wrap32_id) simp_all
  then have k: "nat (isub width 1 + 1) = nat width" by simp
  from assms(1) obtain t where "toBinaryLoop n (nat width) = Inr t" "s = t @ [newline]"
    unfolding toBinary_def k by (auto split: sum.splits)
  then show ?thesis using toBinaryLoop_Inr by blast
qed

lemma printRows_Inr:
  assumes "printRows rs width = Inr s" "- (2 ^ 31) < width" "width < 2 ^ 31"
  shows "s = concat (map (\<lambda>r. binaryDigits (nat width) r @ [newline]) rs)"
  using assms(1)
proof (induction rs arbitrary: s)
  case Nil
  then show ?case by simp
next
  case (Cons r rs)
  from Cons.prems obtain a t where a: "toBinary r width = Inr a"
    and t: "printRows rs width = Inr t" and s: "s = a @ t"
    by (auto split: sum.splits)
  show ?case using toBinary_Inr [OF a assms(2,3)] Cons.IH [OF t] s by simp
qed

lemma plainLoop_length: "plainLoop data cw dpl n st = Inr rows \<Longrightarrow> length rows = n"
proof (induction n arbitrary: st rows)
  case 0
  then show ?case by simp
next
  case (Suc n)
  from Suc.prems obtain r rs where rs: "plainLoop data cw dpl n (advance dpl st) = Inr rs"
    and rows: "rows = r # rs"
    by (simp split: sum.splits) blast
  show ?case using Suc.IH [OF rs] rows by simp
qed

lemma straddleLoop_length: "straddleLoop data cw dpl n st = Inr rows \<Longrightarrow> length rows = n"
proof (induction n arbitrary: st rows)
  case 0
  then show ?case by simp
next
  case (Suc n)
  from Suc.prems obtain r rs where rs: "straddleLoop data cw dpl n (advance dpl st) = Inr rs"
    and rows: "rows = r # rs"
    by (simp split: sum.splits) blast
  show ?case using Suc.IH [OF rs] rows by simp
qed

lemma assembleCharacter_length:
  "assembleCharacter data ASCII cw ch dpl = Inr rows \<Longrightarrow> length rows = nat ch"
  unfolding assembleCharacter_def Let_def
  by (auto split: if_splits dest: plainLoop_length straddleLoop_length)

lemma emitLoop_Inr:
  assumes "emitLoop cd cw ch dpl n (int i0) = Inr s" "i0 + n \<le> 1000"
    and "- (2 ^ 31) < cw" "cw < 2 ^ 31"
  shows "(\<forall>k<n. assembleCharacter cd (int (i0 + k)) cw ch dpl = Inr (glyphRows cd cw ch dpl (i0 + k)))
    \<and> s = concat (map (\<lambda>k. concat (map (\<lambda>r. binaryDigits (nat cw) r @ [newline])
                                        (glyphRows cd cw ch dpl (i0 + k)))) [0..<n])"
  using assms(1,2)
proof (induction n arbitrary: i0 s)
  case 0
  then show ?case by simp
next
  case (Suc n)
  have nx: "iadd (int i0) 1 = int (Suc i0)"
    unfolding iadd_def using Suc.prems(2) by (subst wrap32_id) simp_all
  from Suc.prems(1) obtain character a t
    where ch: "assembleCharacter cd (int i0) cw ch dpl = Inr character"
      and a: "printRows character cw = Inr a"
      and t: "emitLoop cd cw ch dpl n (int (Suc i0)) = Inr t"
      and s: "s = a @ t"
    unfolding emitLoop.simps nx by (auto split: sum.splits)
  have g: "glyphRows cd cw ch dpl i0 = character" by (simp add: glyphRows_def ch)
  have a': "a = concat (map (\<lambda>r. binaryDigits (nat cw) r @ [newline]) (glyphRows cd cw ch dpl i0))"
    using printRows_Inr [OF a assms(3,4)] g by simp
  have le: "Suc i0 + n \<le> 1000" using Suc.prems(2) by simp
  note ih = Suc.IH [OF t le]
  have all: "\<forall>k<Suc n. assembleCharacter cd (int (i0 + k)) cw ch dpl = Inr (glyphRows cd cw ch dpl (i0 + k))"
  proof (intro allI impI)
    fix k assume "k < Suc n"
    show "assembleCharacter cd (int (i0 + k)) cw ch dpl = Inr (glyphRows cd cw ch dpl (i0 + k))"
    proof (cases k)
      case 0
      then show ?thesis using ch g by simp
    next
      case (Suc k')
      then have "k' < n" using \<open>k < Suc n\<close> by simp
      then show ?thesis using ih Suc by simp
    qed
  qed
  have "map (\<lambda>k. concat (map (\<lambda>r. binaryDigits (nat cw) r @ [newline])
                                        (glyphRows cd cw ch dpl (i0 + k)))) [0..<Suc n]
      = concat (map (\<lambda>r. binaryDigits (nat cw) r @ [newline]) (glyphRows cd cw ch dpl i0))
        # map (\<lambda>k. concat (map (\<lambda>r. binaryDigits (nat cw) r @ [newline])
                                        (glyphRows cd cw ch dpl (Suc i0 + k)))) [0..<n]"
    by (simp add: upt_conv_Cons map_Suc_upt [symmetric] del: upt_Suc)
  then have "s = concat (map (\<lambda>k. concat (map (\<lambda>r. binaryDigits (nat cw) r @ [newline])
                                        (glyphRows cd cw ch dpl (i0 + k)))) [0..<Suc n])"
    using s a' ih by simp
  then show ?case using all by blast
qed

lemma concat_map_concat_flat: "concat (map concat xss) = concat (concat xss)"
  by (induction xss) simp_all

lemma map_by_index: "map g xs = map (\<lambda>l. g (xs ! l)) [0..<length xs]"
proof -
  have "map (\<lambda>l. g (xs ! l)) [0..<length xs] = map g (map (\<lambda>l. xs ! l) [0..<length xs])"
    by (simp only: map_map comp_def)
  also have "\<dots> = map g xs" by (simp only: map_nth)
  finally show ?thesis by (rule sym)
qed

lemma flatten_rows:
  assumes "\<And>c. c < n \<Longrightarrow> length (R c) = m"
  shows "concat (map (\<lambda>c. concat (map g (R c))) [0..<n])
     = concat (map (\<lambda>k. g (R (k div m) ! (k mod m))) [0..<n * m])"
proof -
  have rows: "map g (R c) = map (\<lambda>l. g (R c ! l)) [0..<m]" if "c < n" for c
    using map_by_index [of g "R c"] assms [OF that] by (simp only:)
  have e1: "map (\<lambda>c. concat (map g (R c))) [0..<n]
      = map concat (map (\<lambda>c. map (\<lambda>l. g (R c ! l)) [0..<m]) [0..<n])"
  proof (rule nth_equalityI)
    show "length (map (\<lambda>c. concat (map g (R c))) [0..<n])
        = length (map concat (map (\<lambda>c. map (\<lambda>l. g (R c ! l)) [0..<m]) [0..<n]))"
      by simp
  next
    fix c assume "c < length (map (\<lambda>c. concat (map g (R c))) [0..<n])"
    then have c: "c < n" by simp
    show "map (\<lambda>c. concat (map g (R c))) [0..<n] ! c
        = map concat (map (\<lambda>c. map (\<lambda>l. g (R c ! l)) [0..<m]) [0..<n]) ! c"
      using c rows [OF c] by simp
  qed
  have e2: "concat (map (\<lambda>c. map (\<lambda>l. g (R c ! l)) [0..<m]) [0..<n])
      = map (\<lambda>k. g (R (k div m) ! (k mod m))) [0..<n * m]"
  proof (rule nth_equalityI)
    show "length (concat (map (\<lambda>c. map (\<lambda>l. g (R c ! l)) [0..<m]) [0..<n]))
        = length (map (\<lambda>k. g (R (k div m) ! (k mod m))) [0..<n * m])"
      by (simp only: concat_rows_length length_map length_upt diff_zero)
  next
    fix k assume "k < length (concat (map (\<lambda>c. map (\<lambda>l. g (R c ! l)) [0..<m]) [0..<n]))"
    then have k: "k < n * m" by (simp only: concat_rows_length)
    then have m0: "0 < m" by (cases m) simp_all
    have r: "k div m < n" using k by (simp add: less_mult_imp_div_less)
    have c: "k mod m < m" using m0 by simp
    have km: "k div m * m + k mod m = k" by simp
    have "concat (map (\<lambda>c. map (\<lambda>l. g (R c ! l)) [0..<m]) [0..<n]) ! (k div m * m + k mod m)
        = g (R (k div m) ! (k mod m))"
      using r c by (rule concat_rows_nth)
    then have "concat (map (\<lambda>c. map (\<lambda>l. g (R c ! l)) [0..<m]) [0..<n]) ! k
        = g (R (k div m) ! (k mod m))"
      unfolding km .
    moreover have "map (\<lambda>k. g (R (k div m) ! (k mod m))) [0..<n * m] ! k = g (R (k div m) ! (k mod m))"
      using k by simp
    ultimately show "concat (map (\<lambda>c. map (\<lambda>l. g (R c ! l)) [0..<m]) [0..<n]) ! k
        = map (\<lambda>k. g (R (k div m) ! (k mod m))) [0..<n * m] ! k"
      by (rule trans [OF _ sym])
  qed
  show ?thesis unfolding e1 concat_map_concat_flat e2 ..
qed

lemma idiv_64_range:
  assumes "- (2 ^ 31) \<le> W" "W < 2 ^ 31"
  shows "- (2 ^ 31) < idiv W 64" "idiv W 64 < 2 ^ 31"
proof -
  have a: "\<bar>W\<bar> div 64 \<le> 33554432" using assms by (cases "0 \<le> W") simp_all
  have n: "0 \<le> \<bar>W\<bar> div 64" by simp
  have "idiv W 64 = \<bar>W\<bar> div 64 \<or> idiv W 64 = - (\<bar>W\<bar> div 64) \<or> idiv W 64 = 0"
    by (cases "W = 0"; cases "0 < W") (simp_all add: idiv_def sgn_if)
  then show "- (2 ^ 31) < idiv W 64" "idiv W 64 < 2 ^ 31" using a n by auto
qed

lemma binaryDigits_shape:
  "length (binaryDigits w v) = w" "set (binaryDigits w v) \<subseteq> {CHR ''0'', CHR ''1''}"
  by (auto simp add: binaryDigits_def)

lemma readHeader_width_range:
  assumes "readHeader e file = ((pdo, W, H), p)"
  shows "- (2 ^ 31) \<le> W" "W < 2 ^ 31"
proof -
  obtain w where "W = sint (w :: uint32)"
    using assms unfolding readHeader_def Let_def by (auto split: prod.splits)
  then show "- (2 ^ 31) \<le> W" "W < 2 ^ 31"
    using sint_ge [of w] sint_lt [of w] by simp_all
qed

text \<open>
  C5. On a successful run (the program returns status 0), \<^verbatim>\<open>font.bin\<close> holds
  \<open>128 * charHeight\<close> lines, each of \<open>charWidth\<close> characters \<open>0\<close> or \<open>1\<close> and a line
  terminator; line \<open>k\<close> is the binary rendering, most significant bit first (character
  \<open>j\<close> is bit \<open>charWidth - 1 - j\<close>), of the row value assembleCharacter gives for code
  \<open>k div charHeight\<close> on scanline \<open>k mod charHeight\<close>: code 0 first, code 127 last, the
  top scanline first within a glyph.
\<close>

theorem font_bin_lines:
  assumes "main e = Inr out" "status out = 0"
  shows "\<exists>file charData pixelDataOffset imageWidth imageHeight p.
      font_file e = Some file
    \<and> readHeader e file = ((pixelDataOffset, imageWidth, imageHeight), p)
    \<and> loadPixels e file = Inr charData
    \<and> (\<forall>c<128.
          assembleCharacter charData (int c) (charWidthOf imageWidth) (charHeightOf imageHeight)
              (dwordsPerLineOf (charWidthOf imageWidth))
            = Inr (glyphRows charData (charWidthOf imageWidth) (charHeightOf imageHeight)
                     (dwordsPerLineOf (charWidthOf imageWidth)) c)
          \<and> length (glyphRows charData (charWidthOf imageWidth) (charHeightOf imageHeight)
                     (dwordsPerLineOf (charWidthOf imageWidth)) c) = nat (charHeightOf imageHeight))
    \<and> bin_out out = Some (concat (map
          (\<lambda>k. binaryDigits (nat (charWidthOf imageWidth))
                 (glyphRows charData (charWidthOf imageWidth) (charHeightOf imageHeight)
                     (dwordsPerLineOf (charWidthOf imageWidth)) (k div nat (charHeightOf imageHeight))
                  ! (k mod nat (charHeightOf imageHeight)))
               @ [newline])
          [0..<128 * nat (charHeightOf imageHeight)]))
    \<and> (\<forall>v. length (binaryDigits (nat (charWidthOf imageWidth)) v) = nat (charWidthOf imageWidth)
            \<and> set (binaryDigits (nat (charWidthOf imageWidth)) v) \<subseteq> {CHR ''0'', CHR ''1''})"
proof -
  from assms obtain fl where ff: "font_file e = Some fl"
    unfolding main_def by (auto split: option.splits)
  obtain pdo W H p where hd: "readHeader e fl = ((pdo, W, H), p)"
    by (metis prod_cases3 surj_pair)
  define cw where "cw = charWidthOf W"
  define ch where "ch = charHeightOf H"
  define dpl where "dpl = dwordsPerLineOf cw"
  from assms ff hd obtain cd s where cd: "loadPixels e fl = Inr cd"
    and em: "emitLoop cd cw ch dpl 128 0 = Inr s" and out: "bin_out out = Some s"
    unfolding main_def cw_def ch_def dpl_def
    by (auto split: if_splits sum.splits)
  have r: "- (2 ^ 31) < cw" "cw < 2 ^ 31"
    unfolding cw_def charWidthOf_def
    using idiv_64_range [OF readHeader_width_range [OF hd]] by simp_all
  have em': "emitLoop cd cw ch dpl 128 (int 0) = Inr s" using em by simp
  have le: "(0::nat) + 128 \<le> 1000" by simp
  note E = emitLoop_Inr [OF em' le r]
  have asm: "assembleCharacter cd (int c) cw ch dpl = Inr (glyphRows cd cw ch dpl c)" if "c < 128" for c
    using E that by simp
  have len: "length (glyphRows cd cw ch dpl c) = nat ch" if "c < 128" for c
    using assembleCharacter_length [OF asm [OF that]] .
  have "s = concat (map (\<lambda>k. concat (map (\<lambda>r. binaryDigits (nat cw) r @ [newline])
                                        (glyphRows cd cw ch dpl k))) [0..<128])"
    using E by simp
  also have "\<dots> = concat (map (\<lambda>k. binaryDigits (nat cw)
                  (glyphRows cd cw ch dpl (k div nat ch) ! (k mod nat ch)) @ [newline])
          [0..<128 * nat ch])"
    using len by (rule flatten_rows)
  finally have s: "s = concat (map (\<lambda>k. binaryDigits (nat cw)
                  (glyphRows cd cw ch dpl (k div nat ch) ! (k mod nat ch)) @ [newline])
          [0..<128 * nat ch])" .
  show ?thesis
    apply (rule exI [of _ fl], rule exI [of _ cd], rule exI [of _ pdo], rule exI [of _ W],
        rule exI [of _ H], rule exI [of _ p])
    using ff hd cd asm len out s binaryDigits_shape
    unfolding cw_def ch_def dpl_def
    by blast
qed

section \<open>The small sheet, run\<close>

lemma tinyRun_returns: "case main tinyRun of Inr out \<Rightarrow> status out = 0 | Inl f \<Rightarrow> False"
  by code_simp

lemma tinyRun_header: "readHeader tinyRun tinySheet = ((62, 64, 2), 26)"
  by code_simp

lemma tinyRun_pixels: "loadPixels tinyRun tinySheet = Inr [0x80000000, 0, 0xFF000000, 1]"
  by code_simp

lemma tinyRun_geometry: "charWidthOf 64 = 1" "charHeightOf 2 = 1" "dwordsPerLineOf 1 = 2"
  by (simp_all add: charWidthOf_def charHeightOf_def dwordsPerLineOf_def bytesPerLineOf_def
      idiv_def imul_def wrap32_def)

theorem font_bin_lines_witness:
  "\<exists>out. main tinyRun = Inr out \<and> status out = 0
     \<and> bin_out out = Some (concat (map
          (\<lambda>k. binaryDigits 1 (glyphRows [0x80000000, 0, 0xFF000000, 1] 1 1 2 k ! 0) @ [newline])
          [0..<128]))
     \<and> glyphRows [0x80000000, 0, 0xFF000000, 1] 1 1 2 71 = [1]"
proof -
  obtain out where m: "main tinyRun = Inr out" and st: "status out = 0"
    using tinyRun_returns by (cases "main tinyRun") simp_all
  from font_bin_lines [OF m st] obtain fl cd pdo W H p
    where ff: "font_file tinyRun = Some fl"
      and hd: "readHeader tinyRun fl = ((pdo, W, H), p)"
      and ld: "loadPixels tinyRun fl = Inr cd"
      and bo: "bin_out out = Some (concat (map
          (\<lambda>k. binaryDigits (nat (charWidthOf W))
                 (glyphRows cd (charWidthOf W) (charHeightOf H)
                     (dwordsPerLineOf (charWidthOf W)) (k div nat (charHeightOf H))
                  ! (k mod nat (charHeightOf H)))
               @ [newline])
          [0..<128 * nat (charHeightOf H)]))"
    by blast
  have fl: "fl = tinySheet" using ff by (simp add: tinyRun_def)
  have W: "W = 64" and H: "H = 2" using hd unfolding fl tinyRun_header by simp_all
  have cd: "cd = [0x80000000, 0, 0xFF000000, 1]" using ld unfolding fl tinyRun_pixels by simp
  have g: "glyphRows [0x80000000, 0, 0xFF000000, 1] 1 1 2 71 = [1]"
    by code_simp
  show ?thesis
    using m st bo g unfolding W H cd tinyRun_geometry by simp
qed




section \<open>Loading the pixel rows\<close>

lemma bit_le32:
  "bit (le32 b0 b1 b2 b3) n \<longleftrightarrow>
     (if n < 8 then bit b0 n else if n < 16 then bit b1 (n - 8)
      else if n < 24 then bit b2 (n - 16) else if n < 32 then bit b3 (n - 24) else False)"
  unfolding le32_def
  by (auto simp add: bit_simps dest: bit_imp_le_length)

lemma bit_be32:
  "bit (be32 b0 b1 b2 b3) n \<longleftrightarrow>
     (if n < 8 then bit b3 n else if n < 16 then bit b2 (n - 8)
      else if n < 24 then bit b1 (n - 16) else if n < 32 then bit b0 (n - 24) else False)"
  unfolding be32_def
  by (auto simp add: bit_simps dest: bit_imp_le_length)

lemma swapEndian32_le32: "swapEndian32 (le32 b0 b1 b2 b3) = be32 b0 b1 b2 b3"
  by (rule bit_word_eqI) (auto simp add: bit_swapEndian32 bit_le32 bit_be32)

lemma storedWord_be32:
  "storedWord file q = be32 (file ! q) (file ! (q + 1)) (file ! (q + 2)) (file ! (q + 3))"
  by (simp add: storedWord_def swapEndian32_le32)

lemma storedWord_pixel:
  assumes "t < 32"
  shows "bit (storedWord file q) (31 - t) = bit (file ! (q + t div 8)) (7 - t mod 8)"
proof -
  consider "t < 8" | "8 \<le> t" "t < 16" | "16 \<le> t" "t < 24" | "24 \<le> t" "t < 32"
    using assms by linarith
  then show ?thesis
  proof cases
    case 1
    then have "t div 8 = 0" "t mod 8 = t" "31 - t - 24 = 7 - t" "\<not> 31 - t < 24"
      "\<not> 31 - t < 16" "\<not> 31 - t < 8" "31 - t < 32" by simp_all
    then show ?thesis by (simp add: storedWord_be32 bit_be32)
  next
    case 2
    then have "t div 8 = 1" "t mod 8 = t - 8" "31 - t - 16 = 7 - (t - 8)" "\<not> 31 - t < 16" "31 - t < 24"
      "\<not> 31 - t < 8"
      by (simp_all add: div_nat_eqI mod_nat_eqI)
    then show ?thesis by (simp add: storedWord_be32 bit_be32)
  next
    case 3
    then have "t div 8 = 2" "t mod 8 = t - 16" "31 - t - 8 = 7 - (t - 16)" "\<not> 31 - t < 8" "31 - t < 16"
      by (simp_all add: div_nat_eqI mod_nat_eqI)
    then show ?thesis by (simp add: storedWord_be32 bit_be32)
  next
    case 4
    then have "t div 8 = 3" "t mod 8 = t - 24" "31 - t = 7 - (t - 24)" "31 - t < 8"
      by (simp_all add: div_nat_eqI mod_nat_eqI)
    then show ?thesis by (simp add: storedWord_be32 bit_be32)
  qed
qed

lemma fread32_eq:
  "pos + 4 \<le> length file \<Longrightarrow>
   fread32 file pos old ind
     = (le32 (file ! pos) (file ! (pos + 1)) (file ! (pos + 2)) (file ! (pos + 3)), pos + 4)"
  by (simp add: fread32_def)

lemma loadInner_step:
  assumes "idx = int k" "k < length cd" "pos + 4 \<le> length file"
    and "iadd (imul i dpl) j = idx"
  shows "loadInner e file dpl i (Suc n) j (cd, pos)
     = loadInner e file dpl i n (iadd j 1) (cd[k := storedWord file pos], pos + 4)"
  using assms by (simp add: Let_def fread32_eq storedWord_def)

lemma loadInner_fills:
  assumes "0 \<le> i" "0 \<le> dpl" "i * dpl + dpl < 2 ^ 31"
    and "j0 + n = nat dpl"
    and "nat (i * dpl) + nat dpl \<le> length cd"
    and "pos + 4 * n \<le> length file"
  shows "\<exists>cd'. loadInner e file dpl i n (int j0) (cd, pos) = Inr (cd', pos + 4 * n)
    \<and> length cd' = length cd
    \<and> (\<forall>k. cd' ! k =
          (if nat (i * dpl) + j0 \<le> k \<and> k < nat (i * dpl) + j0 + n
           then storedWord file (pos + 4 * (k - (nat (i * dpl) + j0)))
           else cd ! k))"
  using assms(4,5,6)
proof (induction n arbitrary: j0 cd pos)
  case 0
  then show ?case by auto
next
  case (Suc n)
  define base where "base = nat (i * dpl)"
  have p0: "0 \<le> i * dpl" using assms(1,2) by simp
  have j0: "int j0 < dpl" using Suc.prems(1) by linarith
  have m: "imul i dpl = i * dpl"
    unfolding imul_def using p0 assms(2,3) by (intro wrap32_id) simp_all
  have a: "iadd (imul i dpl) (int j0) = int (base + j0)"
    unfolding m iadd_def base_def using p0 j0 assms(3) by (subst wrap32_id) simp_all
  have kb: "base + j0 < length cd" using Suc.prems(1,2) unfolding base_def by linarith
  have pb: "pos + 4 \<le> length file" using Suc.prems(3) by simp
  have nx: "iadd (int j0) 1 = int (Suc j0)"
    unfolding iadd_def using j0 assms(3) p0 by (subst wrap32_id) simp_all
  have step: "loadInner e file dpl i (Suc n) (int j0) (cd, pos)
      = loadInner e file dpl i n (int (Suc j0)) (cd[base + j0 := storedWord file pos], pos + 4)"
    using loadInner_step [OF refl kb pb a] unfolding nx .
  have l1: "Suc j0 + n = nat dpl" using Suc.prems(1) by simp
  have l2: "nat (i * dpl) + nat dpl \<le> length (cd[base + j0 := storedWord file pos])"
    using Suc.prems(2) by simp
  have l3: "pos + 4 + 4 * n \<le> length file" using Suc.prems(3) by simp
  from Suc.IH [OF l1 l2 l3] obtain cd'
    where r: "loadInner e file dpl i n (int (Suc j0)) (cd[base + j0 := storedWord file pos], pos + 4)
        = Inr (cd', pos + 4 + 4 * n)"
      and len: "length cd' = length (cd[base + j0 := storedWord file pos])"
      and cells: "\<And>k. cd' ! k =
          (if base + Suc j0 \<le> k \<and> k < base + Suc j0 + n
           then storedWord file (pos + 4 + 4 * (k - (base + Suc j0)))
           else cd[base + j0 := storedWord file pos] ! k)"
    unfolding base_def by blast
  have "cd' ! k =
          (if base + j0 \<le> k \<and> k < base + j0 + Suc n
           then storedWord file (pos + 4 * (k - (base + j0)))
           else cd ! k)" for k
  proof (cases "k = base + j0")
    case True
    then show ?thesis using cells [of k] kb by simp
  next
    case False
    show ?thesis
    proof (cases "base + Suc j0 \<le> k \<and> k < base + Suc j0 + n")
      case True
      then have e: "pos + 4 + 4 * (k - (base + Suc j0)) = pos + 4 * (k - (base + j0))" by linarith
      have "cd' ! k = storedWord file (pos + 4 + 4 * (k - (base + Suc j0)))"
        using cells [of k] True by simp
      then have "cd' ! k = storedWord file (pos + 4 * (k - (base + j0)))" unfolding e .
      moreover have "base + j0 \<le> k \<and> k < base + j0 + Suc n" using True by linarith
      ultimately show ?thesis by simp
    next
      case F2: False
      then have neg: "\<not> (base + j0 \<le> k \<and> k < base + j0 + Suc n)" using False by linarith
      have "cd' ! k = cd[base + j0 := storedWord file pos] ! k"
        unfolding cells [of k] if_not_P [OF F2] ..
      also have "\<dots> = cd ! k" using False by simp
      finally show ?thesis unfolding if_not_P [OF neg] .
    qed
  qed
  then show ?case
    using step r len unfolding base_def
    by (intro exI [of _ cd']) (simp add: algebra_simps)
qed

lemma loadOuter_fills:
  assumes "0 \<le> dpl"
  shows "int n * dpl < 2 ^ 31 \<Longrightarrow> int n < 2 ^ 31 \<Longrightarrow> n * nat dpl \<le> length cd
    \<Longrightarrow> pos + 4 * (n * nat dpl) \<le> length file
    \<Longrightarrow> \<exists>cd'. loadOuter e file dpl n (int n - 1) (cd, pos) = Inr (cd', pos + 4 * (n * nat dpl))
      \<and> length cd' = length cd
      \<and> (\<forall>k. cd' ! k =
            (if k < n * nat dpl
             then storedWord file (pos + 4 * ((n - 1 - k div nat dpl) * nat dpl + k mod nat dpl))
             else cd ! k))"
proof (induction n arbitrary: cd pos)
  case 0
  then show ?case by simp
next
  case (Suc n)
  define D where "D = nat dpl"
  have dD: "dpl = int D" using assms by (simp add: D_def)
  have i: "int (Suc n) - 1 = int n" by simp
  have b1: "int n * dpl + dpl < 2 ^ 31" using Suc.prems(1) by (simp add: algebra_simps)
  have nb: "nat (int n * dpl) = n * D" unfolding dD by (simp add: nat_mult_distrib)
  have b2: "nat (int n * dpl) + nat dpl \<le> length cd"
    using Suc.prems(3) unfolding nb D_def [symmetric] by simp
  have b3: "pos + 4 * nat dpl \<le> length file"
    using Suc.prems(4) unfolding D_def [symmetric] by simp
  have b0: "0 + nat dpl = nat dpl" by simp
  from loadInner_fills [OF _ assms b1 b0 b2 b3, of e] obtain cd1
    where r1: "loadInner e file dpl (int n) (nat dpl) (int 0) (cd, pos) = Inr (cd1, pos + 4 * nat dpl)"
      and len1: "length cd1 = length cd"
      and cells1: "\<And>k. cd1 ! k =
          (if nat (int n * dpl) + 0 \<le> k \<and> k < nat (int n * dpl) + 0 + nat dpl
           then storedWord file (pos + 4 * (k - (nat (int n * dpl) + 0)))
           else cd ! k)"
    by auto
  have sb: "isub (int n) 1 = int n - 1"
    unfolding isub_def using Suc.prems(2) by (intro wrap32_id) simp_all
  have step: "loadOuter e file dpl (Suc n) (int (Suc n) - 1) (cd, pos)
      = loadOuter e file dpl n (int n - 1) (cd1, pos + 4 * D)"
    unfolding i using r1 by (simp add: sb D_def)
  have c1: "int n * dpl < 2 ^ 31"
  proof -
    have "int n * dpl \<le> int (Suc n) * dpl" using assms by (simp add: algebra_simps)
    then show ?thesis using Suc.prems(1) by linarith
  qed
  have c2: "int n < 2 ^ 31" using Suc.prems(2) by simp
  have c3: "n * nat dpl \<le> length cd1" using Suc.prems(3) len1 by simp
  have c4: "pos + 4 * D + 4 * (n * nat dpl) \<le> length file"
    using Suc.prems(4) by (simp add: D_def algebra_simps)
  from Suc.IH [OF c1 c2 c3 c4] obtain cd'
    where r: "loadOuter e file dpl n (int n - 1) (cd1, pos + 4 * D)
        = Inr (cd', pos + 4 * D + 4 * (n * nat dpl))"
      and len: "length cd' = length cd1"
      and cells: "\<And>k. cd' ! k =
            (if k < n * D
             then storedWord file (pos + 4 * D + 4 * ((n - 1 - k div D) * D + k mod D))
             else cd1 ! k)"
    unfolding D_def by blast
  have fin: "cd' ! k =
            (if k < Suc n * D
             then storedWord file (pos + 4 * ((Suc n - 1 - k div D) * D + k mod D))
             else cd ! k)" for k
  proof -
    consider "k < n * D" | "n * D \<le> k" "k < Suc n * D" | "Suc n * D \<le> k" by fastforce
    then show ?thesis
    proof cases
      case 1
      then have D0: "0 < D" by (cases D) simp_all
      have q: "k div D < n" using 1 by (simp add: less_mult_imp_div_less)
      then have "Suc n - 1 - k div D = Suc (n - 1 - k div D)" by simp
      then have e: "pos + 4 * D + 4 * ((n - 1 - k div D) * D + k mod D)
          = pos + 4 * ((Suc n - 1 - k div D) * D + k mod D)"
        by (simp add: algebra_simps)
      have "cd' ! k = storedWord file (pos + 4 * D + 4 * ((n - 1 - k div D) * D + k mod D))"
        unfolding cells [of k] if_P [OF 1] ..
      then have "cd' ! k = storedWord file (pos + 4 * ((Suc n - 1 - k div D) * D + k mod D))"
        unfolding e .
      moreover have "k < Suc n * D" using 1 by simp
      ultimately show ?thesis by simp
    next
      case 2
      then have D0: "0 < D" by (cases D) simp_all
      have n1: "\<not> k < n * D" using 2(1) by simp
      have q: "k div D = n"
        using 2 D0 by (intro div_nat_eqI) (simp_all add: algebra_simps)
      have m: "k mod D = k - n * D"
        using 2 D0 by (intro mod_nat_eqI) (simp_all add: algebra_simps)
      have in1: "nat (int n * dpl) + 0 \<le> k \<and> k < nat (int n * dpl) + 0 + nat dpl"
        unfolding nb D_def [symmetric] using 2 by simp
      have "cd' ! k = cd1 ! k" unfolding cells [of k] if_not_P [OF n1] ..
      also have "\<dots> = storedWord file (pos + 4 * (k - (nat (int n * dpl) + 0)))"
        unfolding cells1 [of k] if_P [OF in1] ..
      also have "\<dots> = storedWord file (pos + 4 * ((Suc n - 1 - k div D) * D + k mod D))"
        unfolding q m nb by simp
      finally show ?thesis using 2(2) by simp
    next
      case 3
      have n1: "\<not> k < n * D" using 3 by simp
      have n2: "\<not> (nat (int n * dpl) + 0 \<le> k \<and> k < nat (int n * dpl) + 0 + nat dpl)"
        unfolding nb D_def [symmetric] using 3 by simp
      have n3: "\<not> k < Suc n * D" using 3 by simp
      have "cd' ! k = cd1 ! k" unfolding cells [of k] if_not_P [OF n1] ..
      also have "\<dots> = cd ! k" unfolding cells1 [of k] if_not_P [OF n2] ..
      finally show ?thesis unfolding if_not_P [OF n3] .
    qed
  qed
  have pe: "pos + 4 * D + 4 * (n * nat dpl) = pos + 4 * (Suc n * nat dpl)"
    by (simp add: D_def algebra_simps)
  show ?case
    unfolding step r pe D_def [symmetric]
    using len len1 fin by (intro exI [of _ cd']) simp
qed

lemma readHeader_height_range:
  assumes "readHeader e file = ((pdo, W, H), p)"
  shows "- (2 ^ 31) \<le> H" "H < 2 ^ 31"
proof -
  obtain w where "H = sint (w :: uint32)"
    using assms unfolding readHeader_def Let_def by (auto split: prod.splits)
  then show "- (2 ^ 31) \<le> H" "H < 2 ^ 31"
    using sint_ge [of w] sint_lt [of w] by simp_all
qed

lemma pixelAt_loaded_word:
  assumes "t < 32"
  shows "pixelAt cd (r * (D * 32) + 32 * j + t) = bit (cd ! (r * D + j)) (31 - t)"
proof -
  have e: "r * (D * 32) + 32 * j + t = 32 * (r * D + j) + t" by (simp add: algebra_simps)
  show ?thesis unfolding e pixelAt_def div_mod_32 [OF assms] ..
qed

lemma filePixel_of_word:
  assumes "t < 32"
  shows "filePixel file (base + 4 * (i * D)) (32 * j + t)
     = bit (file ! (base + 4 * (i * D + j) + t div 8)) (7 - t mod 8)"
proof -
  have d: "(32 * j + t) div 8 = 4 * j + t div 8" by simp
  have m: "(32 * j + t) mod 8 = t mod 8" by presburger
  have e: "base + 4 * (i * D) + (4 * j + t div 8) = base + 4 * (i * D + j) + t div 8"
    by (simp add: algebra_simps)
  show ?thesis unfolding filePixel_def d m e ..
qed

lemma loadPixels_cells:
  assumes "readHeader e file = ((pixelDataOffset, imageWidth, imageHeight), p)"
    and "0 \<le> pixelDataOffset" "0 \<le> imageHeight"
    and "0 \<le> dwordsPerLineOf (charWidthOf imageWidth)"
    and "imageHeight * dwordsPerLineOf (charWidthOf imageWidth) < 2 ^ 31"
    and "nat pixelDataOffset
           + 4 * (nat imageHeight * nat (dwordsPerLineOf (charWidthOf imageWidth)))
         \<le> length file"
  shows "\<exists>charData. loadPixels e file = Inr charData
    \<and> length charData = nat imageHeight * nat (dwordsPerLineOf (charWidthOf imageWidth))
    \<and> (\<forall>i < nat imageHeight. \<forall>j < nat (dwordsPerLineOf (charWidthOf imageWidth)).
          (let dpl = nat (dwordsPerLineOf (charWidthOf imageWidth));
               q = nat pixelDataOffset + 4 * (i * dpl + j);
               stored = charData ! ((nat imageHeight - 1 - i) * dpl + j)
           in stored = swapEndian32 (le32 (file ! q) (file ! (q + 1)) (file ! (q + 2)) (file ! (q + 3)))
            \<and> stored = be32 (file ! q) (file ! (q + 1)) (file ! (q + 2)) (file ! (q + 3))
            \<and> (\<forall>t < 32.
                  pixelAt charData ((nat imageHeight - 1 - i) * (dpl * 32) + 32 * j + t)
                  = filePixel file (nat pixelDataOffset + 4 * (i * dpl)) (32 * j + t))))"
proof -
  define dpl where "dpl = dwordsPerLineOf (charWidthOf imageWidth)"
  define D where "D = nat dpl"
  define Hn where "Hn = nat imageHeight"
  define fresh where "fresh = map (\<lambda>k. indeterminate e (3 + k)) [0..<nat (dpl * imageHeight)]"
  have H: "imageHeight = int Hn" using assms(3) by (simp add: Hn_def)
  have dD: "dpl = int D" using assms(4) by (simp add: D_def dpl_def)
  have Hr: "imageHeight < 2 ^ 31" using readHeader_height_range(2) [OF assms(1)] .
  have s1: "isub imageHeight 1 = int Hn - 1"
    unfolding isub_def H [symmetric] using assms(3) Hr by (intro wrap32_id) simp_all
  have cnt: "nat (isub imageHeight 1 + 1) = Hn" unfolding s1 by simp
  have sk: "fseek_set p pixelDataOffset = nat pixelDataOffset"
    using assms(2) by (simp add: fseek_set_def)
  have lf: "length fresh = Hn * D"
    unfolding fresh_def H dD by (simp add: nat_mult_distrib)
  have a0: "0 \<le> dpl" using assms(4) by (simp add: dpl_def)
  have a1: "int Hn * dpl < 2 ^ 31" using assms(5) unfolding H dpl_def .
  have a2: "int Hn < 2 ^ 31" using Hr unfolding H .
  have a3: "Hn * nat dpl \<le> length fresh" unfolding lf D_def by simp
  have a4: "nat pixelDataOffset + 4 * (Hn * nat dpl) \<le> length file"
    using assms(6) unfolding Hn_def dpl_def .
  from loadOuter_fills [OF a0 a1 a2 a3 a4, of e] obtain cd
    where r: "loadOuter e file dpl Hn (int Hn - 1) (fresh, nat pixelDataOffset)
        = Inr (cd, nat pixelDataOffset + 4 * (Hn * nat dpl))"
      and len: "length cd = length fresh"
      and cells: "\<And>k. cd ! k =
            (if k < Hn * D
             then storedWord file (nat pixelDataOffset + 4 * ((Hn - 1 - k div D) * D + k mod D))
             else fresh ! k)"
    unfolding D_def by blast
  have res: "loadPixels e file = Inr cd"
    unfolding loadPixels_def assms(1)
    by (simp add: Let_def dpl_def [symmetric] fresh_def [symmetric] cnt s1 sk r)
  have cell: "cd ! ((Hn - 1 - i) * D + j) = storedWord file (nat pixelDataOffset + 4 * (i * D + j))"
    if i: "i < Hn" and j: "j < D" for i j
  proof -
    define k where "k = (Hn - 1 - i) * D + j"
    have kd: "k div D = Hn - 1 - i" unfolding k_def using j by simp
    have km: "k mod D = j" unfolding k_def using j by simp
    have "k < (Hn - 1 - i) * D + D" unfolding k_def using j by simp
    also have "\<dots> = (Hn - i) * D"
    proof -
      have "Hn - i = Suc (Hn - 1 - i)" using i by simp
      then show ?thesis by simp
    qed
    also have "\<dots> \<le> Hn * D" by (intro mult_le_mono1) simp
    finally have kl: "k < Hn * D" .
    have b: "Hn - 1 - (Hn - 1 - i) = i" using i by simp
    have "cd ! k = storedWord file (nat pixelDataOffset + 4 * ((Hn - 1 - k div D) * D + k mod D))"
      unfolding cells [of k] if_P [OF kl] ..
    then show ?thesis unfolding kd km b unfolding k_def .
  qed
  have px: "pixelAt cd ((Hn - 1 - i) * (D * 32) + 32 * j + t)
      = filePixel file (nat pixelDataOffset + 4 * (i * D)) (32 * j + t)"
    if i: "i < Hn" and j: "j < D" and t: "t < 32" for i j t
    unfolding pixelAt_loaded_word [OF t] filePixel_of_word [OF t] cell [OF i j]
    by (rule storedWord_pixel [OF t])
  have "\<forall>i < Hn. \<forall>j < D.
          (let dpl = D;
               q = nat pixelDataOffset + 4 * (i * dpl + j);
               stored = cd ! ((Hn - 1 - i) * dpl + j)
           in stored = swapEndian32 (le32 (file ! q) (file ! (q + 1)) (file ! (q + 2)) (file ! (q + 3)))
            \<and> stored = be32 (file ! q) (file ! (q + 1)) (file ! (q + 2)) (file ! (q + 3))
            \<and> (\<forall>t < 32.
                  pixelAt cd ((Hn - 1 - i) * (dpl * 32) + 32 * j + t)
                  = filePixel file (nat pixelDataOffset + 4 * (i * dpl)) (32 * j + t)))"
    unfolding Let_def
  proof (intro allI impI conjI)
    fix i j assume i: "i < Hn" and j: "j < D"
    show "cd ! ((Hn - 1 - i) * D + j)
        = swapEndian32 (le32 (file ! (nat pixelDataOffset + 4 * (i * D + j)))
            (file ! (nat pixelDataOffset + 4 * (i * D + j) + 1))
            (file ! (nat pixelDataOffset + 4 * (i * D + j) + 2))
            (file ! (nat pixelDataOffset + 4 * (i * D + j) + 3)))"
      unfolding cell [OF i j] storedWord_def ..
    show "cd ! ((Hn - 1 - i) * D + j)
        = be32 (file ! (nat pixelDataOffset + 4 * (i * D + j)))
            (file ! (nat pixelDataOffset + 4 * (i * D + j) + 1))
            (file ! (nat pixelDataOffset + 4 * (i * D + j) + 2))
            (file ! (nat pixelDataOffset + 4 * (i * D + j) + 3))"
      unfolding cell [OF i j] storedWord_be32 ..
    fix t :: nat assume t: "t < 32"
    show "pixelAt cd ((Hn - 1 - i) * (D * 32) + 32 * j + t)
        = filePixel file (nat pixelDataOffset + 4 * (i * D)) (32 * j + t)"
      using i j t by (rule px)
  qed
  then show ?thesis
    using res len lf unfolding Hn_def D_def dpl_def
    by (intro exI [of _ cd]) simp
qed

text \<open>
  C6, amended. For a source file that holds the pixel data its header declares (a pixel
  data offset and dimensions that are not negative, and \<open>imageHeight\<close> rows of
  \<open>dwordsPerLine\<close> words from the offset on) and whose word count
  \<open>imageHeight * dwordsPerLine\<close> fits a signed 32-bit \<^verbatim>\<open>int\<close>, the load succeeds and, for every file row \<open>i\<close> in
  \<open>[0, imageHeight - 1]\<close> (the bottom row is read first) and every word \<open>j\<close> of it, the
  word stored in row \<open>imageHeight - 1 - i\<close> of the buffer is the word read, with its
  four bytes reversed: the file's first byte is the most significant, and bit \<open>31 - t\<close>
  of the stored word is pixel \<open>t\<close> of its 32-pixel span, so bit 31 is the leftmost.
\<close>

theorem pixel_rows_loaded:
  assumes "readHeader e file = ((pixelDataOffset, imageWidth, imageHeight), p)"
    and "0 \<le> pixelDataOffset" "0 \<le> imageHeight"
    and "0 \<le> dwordsPerLineOf (charWidthOf imageWidth)"
    and "imageHeight * dwordsPerLineOf (charWidthOf imageWidth) < 2 ^ 31"
    and "nat pixelDataOffset
           + 4 * (nat imageHeight * nat (dwordsPerLineOf (charWidthOf imageWidth)))
         \<le> length file"
  shows "\<exists>charData. loadPixels e file = Inr charData
    \<and> length charData = nat imageHeight * nat (dwordsPerLineOf (charWidthOf imageWidth))
    \<and> (\<forall>i < nat imageHeight. \<forall>j < nat (dwordsPerLineOf (charWidthOf imageWidth)).
          (let dpl = nat (dwordsPerLineOf (charWidthOf imageWidth));
               q = nat pixelDataOffset + 4 * (i * dpl + j);
               stored = charData ! ((nat imageHeight - 1 - i) * dpl + j)
           in stored = swapEndian32 (le32 (file ! q) (file ! (q + 1)) (file ! (q + 2)) (file ! (q + 3)))
            \<and> stored = be32 (file ! q) (file ! (q + 1)) (file ! (q + 2)) (file ! (q + 3))
            \<and> (\<forall>t < 32.
                  pixelAt charData ((nat imageHeight - 1 - i) * (dpl * 32) + 32 * j + t)
                  = filePixel file (nat pixelDataOffset + 4 * (i * dpl)) (32 * j + t))))"
  using assms by (rule loadPixels_cells)

lemma tinySheet_bytes:
  "length tinySheet = 78" "tinySheet ! 62 = 0xFF" "tinySheet ! 63 = 0" "tinySheet ! 64 = 0"
  "tinySheet ! 65 = 0"
  by code_simp+

theorem pixel_rows_loaded_witness:
  "\<exists>charData. loadPixels tinyRun tinySheet = Inr charData \<and> length charData = 4
     \<and> charData ! 2 = swapEndian32 (le32 0xFF 0 0 0)
     \<and> charData ! 2 = be32 0xFF 0 0 0
     \<and> pixelAt charData 64 = filePixel tinySheet 62 0"
proof -
  have g: "dwordsPerLineOf (charWidthOf 64) = 2" by (simp add: tinyRun_geometry)
  have h2: "(0::int) \<le> 62" and h3: "(0::int) \<le> 2" by simp_all
  have h4: "0 \<le> dwordsPerLineOf (charWidthOf 64)" unfolding g by simp
  have h5: "2 * dwordsPerLineOf (charWidthOf 64) < 2 ^ 31" unfolding g by simp
  have h6: "nat 62 + 4 * (nat 2 * nat (dwordsPerLineOf (charWidthOf 64))) \<le> length tinySheet"
    unfolding g tinySheet_bytes by simp
  from pixel_rows_loaded [OF tinyRun_header h2 h3 h4 h5 h6] obtain cd
    where ld: "loadPixels tinyRun tinySheet = Inr cd"
      and len: "length cd = nat 2 * nat (dwordsPerLineOf (charWidthOf 64))"
      and cells: "\<forall>i < nat 2. \<forall>j < nat (dwordsPerLineOf (charWidthOf 64)).
          (let dpl = nat (dwordsPerLineOf (charWidthOf 64));
               q = nat 62 + 4 * (i * dpl + j);
               stored = cd ! ((nat 2 - 1 - i) * dpl + j)
           in stored = swapEndian32 (le32 (tinySheet ! q) (tinySheet ! (q + 1)) (tinySheet ! (q + 2))
                  (tinySheet ! (q + 3)))
            \<and> stored = be32 (tinySheet ! q) (tinySheet ! (q + 1)) (tinySheet ! (q + 2))
                  (tinySheet ! (q + 3))
            \<and> (\<forall>t < 32.
                  pixelAt cd ((nat 2 - 1 - i) * (dpl * 32) + 32 * j + t)
                  = filePixel tinySheet (nat 62 + 4 * (i * dpl)) (32 * j + t)))"
    by blast
  have i0: "(0::nat) < nat 2" and j0: "(0::nat) < nat (dwordsPerLineOf (charWidthOf 64))"
    unfolding g by simp_all
  note c = cells [THEN spec, THEN mp, OF i0, THEN spec, THEN mp, OF j0]
  have c1: "cd ! 2 = swapEndian32 (le32 0xFF 0 0 0)"
    using c unfolding g Let_def by (simp add: tinySheet_bytes)
  have c2: "cd ! 2 = be32 0xFF 0 0 0"
    using c1 by (simp add: swapEndian32_le32)
  have t0: "(0::nat) < 32" by simp
  have c3: "pixelAt cd 64 = filePixel tinySheet 62 0"
    using c [unfolded Let_def, THEN conjunct2, THEN conjunct2, THEN spec, THEN mp, OF t0]
    unfolding g by simp
  show ?thesis using ld len c1 c2 c3 unfolding g by (intro exI [of _ cd]) simp
qed

text \<open>
  The tall sheet: the first round of the outer loop has \<open>i = 134217727\<close>, and the index
  \<open>i * dwordsPerLine\<close> of line 136 is \<open>4294967264\<close>, which an \<^verbatim>\<open>int\<close> holds as \<open>- 32\<close>.
\<close>

lemma tallSheet_length: "length tallSheet = 17179869246"
  by (simp add: tallSheet_def)

lemma tallSheet_header_bytes:
  "tallSheet ! 10 = 62" "tallSheet ! 11 = 0" "tallSheet ! 12 = 0" "tallSheet ! 13 = 0"
  "tallSheet ! 18 = 0" "tallSheet ! 19 = 4" "tallSheet ! 20 = 0" "tallSheet ! 21 = 0"
  "tallSheet ! 22 = 0" "tallSheet ! 23 = 0" "tallSheet ! 24 = 0" "tallSheet ! 25 = 8"
  by (simp_all add: tallSheet_def nth_append)

lemma tallRun_header: "readHeader tallRun tallSheet = ((62, 1024, 134217728), 26)"
  by (simp add: readHeader_def fseek_set_def fread32_def tallSheet_length tallSheet_header_bytes
      le32_def Let_def)

lemma tallRun_geometry: "dwordsPerLineOf (charWidthOf 1024) = 32"
  by (simp add: dwordsPerLineOf_def bytesPerLineOf_def charWidthOf_def idiv_def imul_def wrap32_def)

lemma loadInner_negative_index:
  "iadd (imul i dwordsPerLine) j < 0 \<Longrightarrow>
   loadInner e file dwordsPerLine i (Suc n) j s = Inl OutOfBounds"
  by (simp add: Let_def)

lemma loadOuter_first_row_fault:
  "loadInner e file dwordsPerLine i (nat dwordsPerLine) 0 s = Inl f \<Longrightarrow>
   loadOuter e file dwordsPerLine (Suc n) i s = Inl f"
  by simp

lemma tallRun_first_index: "iadd (imul 134217727 32) 0 = - 32"
  by (simp add: iadd_def imul_def wrap32_def)

lemma tallRun_load: "loadPixels tallRun tallSheet = Inl OutOfBounds"
proof -
  have i: "isub 134217728 1 = 134217727" by (simp add: isub_def wrap32_def)
  have r: "nat ((134217727::int) + 1) = Suc 134217727" by simp
  have d: "nat 32 = Suc 31" by simp
  have "loadInner tallRun tallSheet 32 134217727 (nat 32) 0 s = Inl OutOfBounds" for s
    unfolding d by (rule loadInner_negative_index) (simp add: tallRun_first_index)
  then have "loadOuter tallRun tallSheet 32 (Suc 134217727) 134217727 s = Inl OutOfBounds" for s
    by (rule loadOuter_first_row_fault)
  then show ?thesis
    unfolding loadPixels_def tallRun_header prod.case tallRun_geometry Let_def i r
    by (simp only: sum.case)
qed

text \<open>
  C6 as written, for every source file, fails on the tall sheet: its header declares
  offset 62, width 1024 and height 134217728, the file holds all the rows declared, and
  yet the first word read is stored at index \<open>- 32\<close>, outside the buffer: the load, and
  with it the run, leaves no buffer whose rows could be those of the file.
\<close>

theorem pixel_rows_overflow_counterexample:
  "readHeader tallRun tallSheet = ((62, 1024, 134217728), 26)
   \<and> dwordsPerLineOf (charWidthOf 1024) = 32
   \<and> nat 62 + 4 * (nat 134217728 * nat (dwordsPerLineOf (charWidthOf 1024))) \<le> length tallSheet
   \<and> loadPixels tallRun tallSheet = Inl OutOfBounds
   \<and> main tallRun = Inl OutOfBounds"
proof -
  have m: "main tallRun = Inl OutOfBounds"
    unfolding main_def by (simp add: tallRun_def tallRun_load [unfolded tallRun_def])
  show ?thesis
    using tallRun_header tallRun_geometry tallRun_load m
    by (simp add: tallSheet_length)
qed

section \<open>Runs on a well-formed sheet\<close>

lemma dwordsPerLineOf_value:
  assumes "0 \<le> cw" "cw \<le> 32"
  shows "dwordsPerLineOf cw = 2 * cw"
proof -
  have m: "imul cw 64 = cw * 64" unfolding imul_def using assms by (intro wrap32_id) simp_all
  have a: "idiv (cw * 64) 8 = cw * 8" using assms by (simp add: idiv_nonneg)
  have b: "idiv (cw * 8) 4 = cw * 2" using assms by (simp add: idiv_nonneg)
  show ?thesis by (simp add: dwordsPerLineOf_def bytesPerLineOf_def m a b)
qed

lemma toBinaryLoop_total: "k \<le> 32 \<Longrightarrow> toBinaryLoop n k = Inr (binaryDigits k n)"
proof (induction k)
  case 0
  then show ?case by (simp add: binaryDigits_def)
next
  case (Suc k)
  have s: "shr_u32 n (int k) = Inr (drop_bit k n)" using Suc.prems by (simp add: shr_u32_def)
  show ?case using Suc s by (simp add: binaryDigits_Suc digit_of_bit)
qed

lemma toBinary_total:
  assumes "0 \<le> width" "width \<le> 32"
  shows "toBinary n width = Inr (binaryDigits (nat width) n @ [newline])"
proof -
  have "isub width 1 = width - 1" using assms by (simp add: isub_small)
  then have k: "nat (isub width 1 + 1) = nat width" by simp
  have "nat width \<le> 32" using assms by simp
  then show ?thesis unfolding toBinary_def k by (simp add: toBinaryLoop_total)
qed

lemma printRows_total:
  assumes "0 \<le> width" "width \<le> 32"
  shows "\<exists>s. printRows rs width = Inr s"
  by (induction rs) (auto simp add: toBinary_total [OF assms])

lemma emitLoop_total:
  assumes "0 \<le> cw" "cw \<le> 32"
  shows "(\<And>k. k < n \<Longrightarrow> \<exists>rows. assembleCharacter cd (int (i0 + k)) cw ch dpl = Inr rows)
    \<Longrightarrow> i0 + n \<le> 1000 \<Longrightarrow> \<exists>s. emitLoop cd cw ch dpl n (int i0) = Inr s"
proof (induction n arbitrary: i0)
  case 0
  then show ?case by simp
next
  case (Suc n)
  have nx: "iadd (int i0) 1 = int (Suc i0)"
    unfolding iadd_def using Suc.prems(2) by (subst wrap32_id) simp_all
  obtain rows where rows: "assembleCharacter cd (int i0) cw ch dpl = Inr rows"
    using Suc.prems(1) [of 0] by auto
  obtain a where a: "printRows rows cw = Inr a" using printRows_total [OF assms] by blast
  have "\<exists>rows. assembleCharacter cd (int (Suc i0 + k)) cw ch dpl = Inr rows" if "k < n" for k
    using Suc.prems(1) [of "Suc k"] that by simp
  moreover have "Suc i0 + n \<le> 1000" using Suc.prems(2) by simp
  ultimately obtain t where t: "emitLoop cd cw ch dpl n (int (Suc i0)) = Inr t"
    using Suc.IH [of "Suc i0"] by blast
  show ?case using rows a t by (simp add: nx)
qed

lemma glyph_within_sheet:
  assumes "0 \<le> ASCII" "ASCII \<le> 127" "1 \<le> cw" "1 \<le> ch"
  shows "specBitOffset ASCII cw ch (2 * cw) + (ch - 1) * (2 * cw * 32) + cw - 1 < 128 * (ch * cw)"
proof -
  define P where "P = ch * cw"
  define c where "c = ASCII mod 64"
  have c: "0 \<le> c" "c \<le> 63" using pos_mod_bound [of 64 ASCII] by (simp_all add: c_def)
  have cc: "c * cw \<le> 63 * cw" using c assms(3) by (intro mult_right_mono) simp_all
  have "1 * 1 \<le> ch * cw" using assms(3,4) by (intro mult_mono) simp_all
  then have P: "1 \<le> P" unfolding P_def by simp
  have e1: "ch * (2 * cw) * 32 = 64 * P" by (simp add: P_def)
  have e2: "(ch - 1) * (2 * cw * 32) = 64 * P - 64 * cw" by (simp add: P_def algebra_simps)
  have F: "specBitOffset ASCII cw ch (2 * cw) \<le> c * cw + 64 * P"
    unfolding specBitOffset_def c_def [symmetric] e1 using P by simp
  show ?thesis unfolding e2 P_def [symmetric] using F cc assms(3) by linarith
qed

text \<open>
  On a well-formed sheet the program runs to its end: when both files open and both
  allocations succeed, the header declares a pixel data offset that is not negative and
  glyphs 1 to 31 pixels wide and at least one pixel tall, the file holds the rows the
  header declares and the sheet has at most \<open>2^31\<close> bits, \<^verbatim>\<open>main\<close> returns 0.
\<close>

lemma main_returns_on_valid_sheet:
  assumes "font_file e = Some file" "bin_creatable e" "charData_alloc e" "character_alloc e"
    and hd: "readHeader e file = ((pixelDataOffset, imageWidth, imageHeight), p)"
    and pdo: "0 \<le> pixelDataOffset"
    and cw: "1 \<le> charWidthOf imageWidth" "charWidthOf imageWidth \<le> 31"
    and ch: "1 \<le> charHeightOf imageHeight"
    and len: "nat pixelDataOffset + 4 * (nat imageHeight * nat (2 * charWidthOf imageWidth))
               \<le> length file"
    and sz: "128 * (charHeightOf imageHeight * charWidthOf imageWidth) \<le> 2 ^ 31"
  shows "\<exists>out. main e = Inr out \<and> status out = 0"
proof -
  define w where "w = charWidthOf imageWidth"
  define h where "h = charHeightOf imageHeight"
  define P where "P = h * w"
  have dpl: "dwordsPerLineOf w = 2 * w" using cw unfolding w_def by (intro dwordsPerLineOf_value) simp_all
  have H0: "0 < imageHeight"
  proof (rule ccontr)
    assume "\<not> 0 < imageHeight"
    then have "idiv imageHeight 2 \<le> 0"
      by (cases "imageHeight = 0") (simp_all add: idiv_def sgn_if)
    then show False using ch by (simp add: charHeightOf_def)
  qed
  have hdiv: "h = imageHeight div 2" unfolding h_def charHeightOf_def using H0 by (simp add: idiv_nonneg)
  have Hlo: "2 * h \<le> imageHeight" and Hhi: "imageHeight \<le> 2 * h + 1" unfolding hdiv by presburger+
  have w1: "1 \<le> w" "w \<le> 31" using cw by (simp_all add: w_def)
  have h1: "1 \<le> h" using ch by (simp add: h_def)
  have "1 * 1 \<le> h * w" using w1 h1 by (intro mult_mono) simp_all
  then have P1: "1 \<le> P" by (simp add: P_def)
  have wP: "w \<le> P" unfolding P_def using w1 h1 by (simp add: mult_le_cancel_right1)
  have szP: "128 * P \<le> 2 ^ 31" using sz by (simp add: P_def h_def w_def)
  have HwL: "4 * P \<le> imageHeight * (2 * w)"
  proof -
    have "(2 * h) * (2 * w) \<le> imageHeight * (2 * w)" using Hlo w1 by (intro mult_right_mono) simp_all
    then show ?thesis by (simp add: P_def algebra_simps)
  qed
  have HwU: "imageHeight * (2 * w) \<le> 4 * P + 2 * w"
  proof -
    have "imageHeight * (2 * w) \<le> (2 * h + 1) * (2 * w)" using Hhi w1 by (intro mult_right_mono) simp_all
    then show ?thesis by (simp add: P_def algebra_simps)
  qed
  have a4: "0 \<le> dwordsPerLineOf (charWidthOf imageWidth)" unfolding w_def [symmetric] dpl using w1 by simp
  have a5: "imageHeight * dwordsPerLineOf (charWidthOf imageWidth) < 2 ^ 31"
    unfolding w_def [symmetric] dpl using HwU wP szP P1 by simp
  have a6: "nat pixelDataOffset
           + 4 * (nat imageHeight * nat (dwordsPerLineOf (charWidthOf imageWidth))) \<le> length file"
    using len unfolding w_def [symmetric] dpl .
  have a3: "0 \<le> imageHeight" using H0 by simp
  from loadPixels_cells [OF hd pdo a3 a4 a5 a6] obtain cd
    where ld: "loadPixels e file = Inr cd"
      and lcd: "length cd = nat imageHeight * nat (dwordsPerLineOf (charWidthOf imageWidth))"
    by blast
  have lcd': "int (length cd) = imageHeight * (2 * w)"
    unfolding lcd w_def [symmetric] dpl using a3 w1 by (simp add: nat_mult_distrib)
  have glyph: "\<exists>rows. assembleCharacter cd (int (0 + c)) w h (2 * w) = Inr rows" if "c < 128" for c
  proof -
    have A: "0 \<le> int c" "int c \<le> 127" using that by simp_all
    define X where "X = specBitOffset (int c) w h (2 * w) + (h - 1) * (2 * w * 32) + w - 1"
    have X: "X < 128 * P" unfolding X_def P_def using A w1(1) h1 by (rule glyph_within_sheet)
    have rng: "specBitOffset (int c) w h (2 * w) + (h - 1) * (2 * w * 32) < 2 ^ 31"
      using X szP w1 unfolding X_def by linarith
    have "X = 32 * (X div 32) + X mod 32" by simp
    moreover have "0 \<le> X mod 32" by simp
    ultimately have "X div 32 < 4 * P" using X by linarith
    then have buf: "(specBitOffset (int c) w h (2 * w) + (h - 1) * (2 * w * 32) + w - 1) div 32
        < int (length cd)"
      unfolding lcd' X_def using HwL by linarith
    have d0: "0 < 2 * w" and hh: "0 < h" using w1 h1 by simp_all
    from assembleCharacter_pixels [OF A(1) w1 hh d0 rng buf] show ?thesis by auto
  qed
  have w0: "0 \<le> w" "w \<le> 32" using w1 by simp_all
  have le: "(0::nat) + 128 \<le> 1000" by simp
  obtain s where s: "emitLoop cd w h (2 * w) 128 (int 0) = Inr s"
    using emitLoop_total [OF w0 glyph le] by blast
  have "main e = Inr \<lparr>status = 0,
       events = [Acquire FontFile, Acquire BinFile, Acquire CharData, Acquire Character,
                 Release CharData, Release Character, Release FontFile, Release BinFile],
       bin_out = Some s\<rparr>"
    unfolding main_def using assms(1-4) ld hd s
    by (simp add: w_def [symmetric] h_def [symmetric] dpl)
  then show ?thesis by simp
qed

end
